theory Spec2Isabelle
  imports Main "HOL-Library.Word" "HOL-Library.AList"
begin

section \<open>Data model of \<^verbatim>\<open>jni/node-inl.h\<close>\<close>

text \<open>
  Nodes are C++ heap objects that point at each other (\<^verbatim>\<open>parent_\<close>, \<^verbatim>\<open>children_\<close>), and an
  inode number is the node's address. The model therefore has an explicit store: a finite
  association list from addresses to node objects. A pointer is a 64-bit word
  (\<^verbatim>\<open>uintptr_t\<close> on a 64-bit target), \<^verbatim>\<open>nullptr\<close> is the address 0, \<^verbatim>\<open>refcount_\<close> is a
  \<^verbatim>\<open>uint32_t\<close> whose arithmetic wraps. The recursive mutex is not modelled: every operation
  below is one critical section.

  Field names drop the trailing underscore of the source, which Isabelle does not allow
  in a name.
\<close>

type_synonym addr = "64 word"
type_synonym inode = "64 word"

abbreviation nullptr :: addr where
  "nullptr \<equiv> 0"

text \<open>\<^verbatim>\<open>struct handle\<close>: file descriptor, pointer to the redaction info, cached flag.\<close>

record handle =
  fd :: int
  ri :: addr
  cached :: bool

text \<open>\<^verbatim>\<open>struct dirhandle\<close>: the directory stream \<^verbatim>\<open>d\<close>, the cursor and the cached entries.\<close>

record dirhandle =
  dir_d :: addr
  next_off :: int
  de :: "addr list"

text \<open>
  \<^verbatim>\<open>class node\<close>. The two handle vectors own their elements through \<^verbatim>\<open>unique_ptr\<close>; an
  element is the pair of the raw pointer (what \<^verbatim>\<open>DestroyHandle\<close> compares) and the object.
\<close>

record node =
  name :: string
  refcount :: "32 word"
  children :: "addr list"
  parent :: addr
  handles :: "(addr \<times> handle) list"
  dirhandles :: "(addr \<times> dirhandle) list"
  deleted :: bool

record NodeTracker =
  active_nodes :: "addr set"

text \<open>The state of one FUSE instance: the allocated node objects and the tracker.\<close>

record fs =
  heap :: "(addr \<times> node) list"
  tracker :: NodeTracker

text \<open>
  A failed \<^verbatim>\<open>CHECK\<close> aborts the process; each \<^verbatim>\<open>CHECK\<close> of the source has its own tag.
  Dereferencing a pointer to no allocated node is undefined behaviour in C++; the model
  makes it the error \<open>BadPointer\<close>.
\<close>

datatype check =
    CheckTracked_active
  | NodeDeleted_active
  | NodeCreated_inactive
  | AddToParent_unparented
  | AddToParent_nonnull
  | RemoveFromParent_found
  | DestroyHandle_found
  | DestroyDirHandle_found
  | handle_ri_nonnull
  | dirhandle_dir_nonnull

datatype error = Fatal check | BadPointer addr

definition node_at :: "fs \<Rightarrow> addr \<Rightarrow> node option" where
  "node_at s a = map_of (heap s) a"

definition store :: "fs \<Rightarrow> addr \<Rightarrow> node \<Rightarrow> fs" where
  "store s a n = s\<lparr>heap := AList.update a n (heap s)\<rparr>"

definition free :: "fs \<Rightarrow> addr \<Rightarrow> fs" where
  "free s a = s\<lparr>heap := AList.delete a (heap s)\<rparr>"

section \<open>NodeTracker\<close>

definition kEnableInodeTracking :: bool where
  "kEnableInodeTracking = True"

definition CheckTracked :: "NodeTracker \<Rightarrow> inode \<Rightarrow> error + unit" where
  "CheckTracked t ino =
     (if kEnableInodeTracking then
        (if (ucast ino :: addr) \<in> active_nodes t then Inr ()
         else Inl (Fatal CheckTracked_active))
      else Inr ())"

definition NodeDeleted :: "NodeTracker \<Rightarrow> addr \<Rightarrow> error + NodeTracker" where
  "NodeDeleted t a =
     (if kEnableInodeTracking then
        (if a \<in> active_nodes t then Inr (t\<lparr>active_nodes := active_nodes t - {a}\<rparr>)
         else Inl (Fatal NodeDeleted_active))
      else Inr t)"

definition NodeCreated :: "NodeTracker \<Rightarrow> addr \<Rightarrow> error + NodeTracker" where
  "NodeCreated t a =
     (if kEnableInodeTracking then
        (if a \<notin> active_nodes t then Inr (t\<lparr>active_nodes := insert a (active_nodes t)\<rparr>)
         else Inl (Fatal NodeCreated_inactive))
      else Inr t)"

section \<open>Reference counting and destruction\<close>

definition Acquire :: "fs \<Rightarrow> addr \<Rightarrow> error + fs" where
  "Acquire s this =
     (case node_at s this of
        None \<Rightarrow> Inl (BadPointer this)
      | Some n \<Rightarrow> Inr (store s this (n\<lparr>refcount := refcount n + 1\<rparr>)))"

text \<open>The sum of all reference counts of the store: the measure of the recursion below.\<close>

definition refsum :: "fs \<Rightarrow> nat" where
  "refsum s = sum_list (map (\<lambda>(a, n). unat (refcount n)) (heap s))"

text \<open>
  \<^verbatim>\<open>Release\<close>, the destructor followed by the deallocation (\<^verbatim>\<open>delete this\<close>) and
  \<^verbatim>\<open>RemoveFromParent\<close> call each other: releasing the last reference destroys the node, the
  destructor unlinks it from its parent, and unlinking releases one reference of the parent.
\<close>

function Release :: "fs \<Rightarrow> addr \<Rightarrow> 32 word \<Rightarrow> error + (fs \<times> bool)"
  and delete_this :: "fs \<Rightarrow> addr \<Rightarrow> error + fs"
  and RemoveFromParent :: "fs \<Rightarrow> addr \<Rightarrow> error + fs"
where
  "Release s this count =
     (case node_at s this of
        None \<Rightarrow> Inl (BadPointer this)
      | Some n \<Rightarrow>
          if count \<le> refcount n then
            (if refcount n - count = 0 then
               (case delete_this (store s this (n\<lparr>refcount := refcount n - count\<rparr>)) this of
                  Inl e \<Rightarrow> Inl e
                | Inr s' \<Rightarrow> Inr (s', True))
             else Inr (store s this (n\<lparr>refcount := refcount n - count\<rparr>), False))
          else Inr (s, False))"
| "delete_this s this =
     (case RemoveFromParent s this of
        Inl e \<Rightarrow> Inl e
      | Inr s1 \<Rightarrow>
          (case node_at s1 this of
             None \<Rightarrow> Inl (BadPointer this)
           | Some n \<Rightarrow>
               (case NodeDeleted (tracker s1) this of
                  Inl e \<Rightarrow> Inl e
                | Inr t \<Rightarrow>
                    Inr (free (store s1 this (n\<lparr>handles := [], dirhandles := []\<rparr>)) this
                          \<lparr>tracker := t\<rparr>))))"
| "RemoveFromParent s this =
     (case node_at s this of
        None \<Rightarrow> Inl (BadPointer this)
      | Some n \<Rightarrow>
          if parent n \<noteq> nullptr then
            (case node_at s (parent n) of
               None \<Rightarrow> Inl (BadPointer (parent n))
             | Some p \<Rightarrow>
                 if this \<in> set (children p) then
                   (case Release (store s (parent n) (p\<lparr>children := remove1 this (children p)\<rparr>))
                           (parent n) 1 of
                      Inl e \<Rightarrow> Inl e
                    | Inr (s', released) \<Rightarrow>
                        (case node_at s' this of
                           None \<Rightarrow> Inl (BadPointer this)
                         | Some n' \<Rightarrow> Inr (store s' this (n'\<lparr>parent := nullptr\<rparr>))))
                 else Inl (Fatal RemoveFromParent_found))
          else Inr s)"
  by pat_completeness auto

termination
proof (relation "measure (\<lambda>x. case x of
           Inl (s, this, count) \<Rightarrow> 3 * refsum s + (if count = 0 then 3 else 0)
         | Inr (Inl (s, this)) \<Rightarrow> 3 * refsum s + 2
         | Inr (Inr (s, this)) \<Rightarrow> 3 * refsum s + 1)", goal_cases)
  have upd: "sum_list (map (\<lambda>(a, n). unat (refcount n)) (AList.update a n' h)) + unat (refcount n)
      = sum_list (map (\<lambda>(a, n). unat (refcount n)) h) + unat (refcount n')"
    if "map_of h a = Some n" for h :: "(addr \<times> node) list" and a n n'
    using that by (induction h) (auto split: if_splits)
  have refsum_store: "refsum (store s a n') + unat (refcount n) = refsum s + unat (refcount n')"
    if "node_at s a = Some n" for s a n n'
    using upd [of "heap s" a n n'] that by (simp add: refsum_def store_def node_at_def)
  {
    case 1
    show ?case by simp
  next
    case (2 s this count n)
    show ?case
    proof (cases "count = 0")
      case True
      with refsum_store [OF 2(1), of "n\<lparr>refcount := refcount n - count\<rparr>"]
      show ?thesis by simp
    next
      case False
      from 2(3) have eq: "refcount n = count" by simp
      with False have "0 < unat (refcount n)" by (simp add: unat_gt_0)
      with refsum_store [OF 2(1), of "n\<lparr>refcount := refcount n - count\<rparr>"] eq False
      show ?thesis by simp
    qed
  next
    case (3 s this)
    show ?case by simp
  next
    case (4 s this n p)
    with refsum_store [OF 4(3), of "p\<lparr>children := remove1 this (children p)\<rparr>"]
    show ?case by simp
  }
qed

section \<open>Linking, construction and the identifier mapping\<close>

definition AddToParent :: "fs \<Rightarrow> addr \<Rightarrow> addr \<Rightarrow> error + fs" where
  "AddToParent s this new_parent =
     (case node_at s this of
        None \<Rightarrow> Inl (BadPointer this)
      | Some n \<Rightarrow>
          if parent n \<noteq> nullptr then Inl (Fatal AddToParent_unparented)
          else if new_parent = nullptr then Inl (Fatal AddToParent_nonnull)
          else
            (case node_at (store s this (n\<lparr>parent := new_parent\<rparr>)) new_parent of
               None \<Rightarrow> Inl (BadPointer new_parent)
             | Some p \<Rightarrow>
                 Acquire (store (store s this (n\<lparr>parent := new_parent\<rparr>)) new_parent
                            (p\<lparr>children := children p @ [this]\<rparr>)) new_parent))"

text \<open>
  The private constructor, run on the object at address \<open>this\<close> that \<^verbatim>\<open>new\<close> has just
  allocated. The address is an argument of the model: the allocator may return any address
  that is not in use.
\<close>

definition node_ctor :: "fs \<Rightarrow> addr \<Rightarrow> addr \<Rightarrow> string \<Rightarrow> error + fs" where
  "node_ctor s this parent0 nm =
     (case NodeCreated (tracker s) this of
        Inl e \<Rightarrow> Inl e
      | Inr t \<Rightarrow>
          (case Acquire
                  (store s this
                     \<lparr>name = nm, refcount = 0, children = [], parent = nullptr,
                      handles = [], dirhandles = [], deleted = False\<rparr>
                   \<lparr>tracker := t\<rparr>) this of
             Inl e \<Rightarrow> Inl e
           | Inr s1 \<Rightarrow> if parent0 \<noteq> nullptr then AddToParent s1 this parent0 else Inr s1))"

definition Create :: "fs \<Rightarrow> addr \<Rightarrow> addr \<Rightarrow> string \<Rightarrow> error + (fs \<times> addr)" where
  "Create s this parent0 nm =
     (case node_ctor s this parent0 nm of
        Inl e \<Rightarrow> Inl e
      | Inr s' \<Rightarrow> Inr (s', this))"

definition CreateRoot :: "fs \<Rightarrow> addr \<Rightarrow> string \<Rightarrow> error + (fs \<times> addr)" where
  "CreateRoot s this path =
     (case node_ctor s this nullptr path of
        Inl e \<Rightarrow> Inl e
      | Inr s1 \<Rightarrow>
          (case Acquire s1 this of
             Inl e \<Rightarrow> Inl e
           | Inr s2 \<Rightarrow> Inr (s2, this)))"

definition ToInode :: "addr \<Rightarrow> inode" where
  "ToInode n = ucast n"

definition FromInode :: "inode \<Rightarrow> NodeTracker \<Rightarrow> error + addr" where
  "FromInode ino t =
     (case CheckTracked t ino of
        Inl e \<Rightarrow> Inl e
      | Inr u \<Rightarrow> Inr (ucast ino))"

section \<open>Lookup, deletion mark, rename\<close>

text \<open>
  \<^verbatim>\<open>strcasecmp\<close> is the C library's: it compares the two C strings (the bytes before the
  first NUL) after mapping the ASCII capitals to lower case, and returns the difference of
  the first two bytes that differ, 0 when there are none.
\<close>

definition tolower :: "char \<Rightarrow> char" where
  "tolower c =
     (if (65::nat) \<le> of_char c \<and> of_char c \<le> (90::nat) then char_of (of_char c + (32::nat))
      else c)"

definition c_str :: "string \<Rightarrow> string" where
  "c_str x = takeWhile (\<lambda>c. c \<noteq> CHR 0x00) x"

fun strcasecmp :: "string \<Rightarrow> string \<Rightarrow> int" where
  "strcasecmp [] [] = 0"
| "strcasecmp [] (y # ys) = - int (of_char (tolower y))"
| "strcasecmp (x # xs) [] = int (of_char (tolower x))"
| "strcasecmp (x # xs) (y # ys) =
     (if tolower x = tolower y then strcasecmp xs ys
      else int (of_char (tolower x)) - int (of_char (tolower y)))"

definition GetName :: "fs \<Rightarrow> addr \<Rightarrow> error + string" where
  "GetName s this =
     (case node_at s this of
        None \<Rightarrow> Inl (BadPointer this)
      | Some n \<Rightarrow> Inr (name n))"

definition GetParent :: "fs \<Rightarrow> addr \<Rightarrow> error + addr" where
  "GetParent s this =
     (case node_at s this of
        None \<Rightarrow> Inl (BadPointer this)
      | Some n \<Rightarrow> Inr (parent n))"

text \<open>The \<^verbatim>\<open>for\<close> loop of \<^verbatim>\<open>LookupChildByName\<close> over the children that are left.\<close>

fun lookup_loop :: "fs \<Rightarrow> addr list \<Rightarrow> string \<Rightarrow> bool \<Rightarrow> error + (fs \<times> addr)" where
  "lookup_loop s [] nm acquire = Inr (s, nullptr)"
| "lookup_loop s (child # rest) nm acquire =
     (case node_at s child of
        None \<Rightarrow> Inl (BadPointer child)
      | Some c \<Rightarrow>
          if strcasecmp (c_str nm) (c_str (name c)) = 0 \<and> \<not> deleted c then
            (if acquire then
               (case Acquire s child of
                  Inl e \<Rightarrow> Inl e
                | Inr s' \<Rightarrow> Inr (s', child))
             else Inr (s, child))
          else lookup_loop s rest nm acquire)"

definition LookupChildByName :: "fs \<Rightarrow> addr \<Rightarrow> string \<Rightarrow> bool \<Rightarrow> error + (fs \<times> addr)" where
  "LookupChildByName s this nm acquire =
     (case node_at s this of
        None \<Rightarrow> Inl (BadPointer this)
      | Some n \<Rightarrow> lookup_loop s (children n) nm acquire)"

definition SetDeleted :: "fs \<Rightarrow> addr \<Rightarrow> error + fs" where
  "SetDeleted s this =
     (case node_at s this of
        None \<Rightarrow> Inl (BadPointer this)
      | Some n \<Rightarrow> Inr (store s this (n\<lparr>deleted := True\<rparr>)))"

definition Rename :: "fs \<Rightarrow> addr \<Rightarrow> string \<Rightarrow> addr \<Rightarrow> error + fs" where
  "Rename s this nm new_parent =
     (case node_at s this of
        None \<Rightarrow> Inl (BadPointer this)
      | Some n \<Rightarrow>
          if new_parent \<noteq> parent n then
            (case RemoveFromParent (store s this (n\<lparr>name := nm\<rparr>)) this of
               Inl e \<Rightarrow> Inl e
             | Inr s1 \<Rightarrow> AddToParent s1 this new_parent)
          else Inr (store s this (n\<lparr>name := nm\<rparr>)))"

section \<open>Handle bookkeeping\<close>

text \<open>
  The constructors of the two handle types check their pointer argument. Closing the file
  descriptor or the directory stream in the destructors is an effect on the operating
  system and has no counterpart in the state.
\<close>

definition handle_ctor :: "int \<Rightarrow> addr \<Rightarrow> bool \<Rightarrow> error + handle" where
  "handle_ctor fd0 ri0 cached0 =
     (if ri0 \<noteq> nullptr then Inr \<lparr>fd = fd0, ri = ri0, cached = cached0\<rparr>
      else Inl (Fatal handle_ri_nonnull))"

definition dirhandle_ctor :: "addr \<Rightarrow> error + dirhandle" where
  "dirhandle_ctor dir0 =
     (if dir0 \<noteq> nullptr then Inr \<lparr>dir_d = dir0, next_off = 0, de = []\<rparr>
      else Inl (Fatal dirhandle_dir_nonnull))"

text \<open>\<^verbatim>\<open>std::find_if\<close> followed by \<^verbatim>\<open>erase\<close>: the first element with the given pointer goes.\<close>

fun erase_first :: "addr \<Rightarrow> (addr \<times> 'h) list \<Rightarrow> (addr \<times> 'h) list" where
  "erase_first h [] = []"
| "erase_first h (x # xs) = (if fst x = h then xs else x # erase_first h xs)"

definition AddHandle :: "fs \<Rightarrow> addr \<Rightarrow> addr \<Rightarrow> handle \<Rightarrow> error + fs" where
  "AddHandle s this h obj =
     (case node_at s this of
        None \<Rightarrow> Inl (BadPointer this)
      | Some n \<Rightarrow> Inr (store s this (n\<lparr>handles := handles n @ [(h, obj)]\<rparr>)))"

definition DestroyHandle :: "fs \<Rightarrow> addr \<Rightarrow> addr \<Rightarrow> error + fs" where
  "DestroyHandle s this h =
     (case node_at s this of
        None \<Rightarrow> Inl (BadPointer this)
      | Some n \<Rightarrow>
          if h \<in> fst ` set (handles n) then
            Inr (store s this (n\<lparr>handles := erase_first h (handles n)\<rparr>))
          else Inl (Fatal DestroyHandle_found))"

definition HasCachedHandle :: "fs \<Rightarrow> addr \<Rightarrow> error + bool" where
  "HasCachedHandle s this =
     (case node_at s this of
        None \<Rightarrow> Inl (BadPointer this)
      | Some n \<Rightarrow> Inr (list_ex (\<lambda>(h, obj). cached obj) (handles n)))"

definition AddDirHandle :: "fs \<Rightarrow> addr \<Rightarrow> addr \<Rightarrow> dirhandle \<Rightarrow> error + fs" where
  "AddDirHandle s this dh obj =
     (case node_at s this of
        None \<Rightarrow> Inl (BadPointer this)
      | Some n \<Rightarrow> Inr (store s this (n\<lparr>dirhandles := dirhandles n @ [(dh, obj)]\<rparr>)))"

definition DestroyDirHandle :: "fs \<Rightarrow> addr \<Rightarrow> addr \<Rightarrow> error + fs" where
  "DestroyDirHandle s this dh =
     (case node_at s this of
        None \<Rightarrow> Inl (BadPointer this)
      | Some n \<Rightarrow>
          if dh \<in> fst ` set (dirhandles n) then
            Inr (store s this (n\<lparr>dirhandles := erase_first dh (dirhandles n)\<rparr>))
          else Inl (Fatal DestroyDirHandle_found))"

section \<open>Well-formed states\<close>

text \<open>
  The predicates below describe the states in which the operations are meant to run. They
  are written over the finite set of allocated addresses, so that they can be evaluated on
  a concrete state.
\<close>

definition live_nodes :: "fs \<Rightarrow> addr set" where
  "live_nodes s = fst ` set (heap s)"

text \<open>A node is linked when it is a root or its parent is allocated and lists it.\<close>

definition linked :: "fs \<Rightarrow> addr \<Rightarrow> bool" where
  "linked s a \<longleftrightarrow>
     (case node_at s a of
        None \<Rightarrow> False
      | Some n \<Rightarrow>
          parent n = nullptr \<or>
          (case node_at s (parent n) of
             None \<Rightarrow> False
           | Some p \<Rightarrow> a \<in> set (children p)))"

definition unreferenced :: "fs \<Rightarrow> addr \<Rightarrow> bool" where
  "unreferenced s a \<longleftrightarrow> (case node_at s a of None \<Rightarrow> False | Some n \<Rightarrow> refcount n = 0)"

text \<open>
  What a destruction needs in order to run through: every allocated node is tracked and
  linked, except the nodes \<open>X\<close> whose destructors are running, which have no reference
  left.
\<close>

definition sinv :: "addr set \<Rightarrow> fs \<Rightarrow> bool" where
  "sinv X s \<longleftrightarrow>
     live_nodes s \<subseteq> active_nodes (tracker s) \<and>
     (\<forall>a \<in> live_nodes s - X. linked s a) \<and>
     (\<forall>x \<in> X. unreferenced s x)"

definition spost :: "addr set \<Rightarrow> fs \<Rightarrow> bool" where
  "spost X s \<longleftrightarrow>
     live_nodes s \<subseteq> active_nodes (tracker s) \<and> (\<forall>x \<in> X. unreferenced s x)"

text \<open>
  The children list of a node has no duplicates, every child is allocated and points back,
  and each child accounts for one reference.
\<close>

definition children_ok :: "fs \<Rightarrow> addr \<Rightarrow> bool" where
  "children_ok s a \<longleftrightarrow>
     (case node_at s a of
        None \<Rightarrow> True
      | Some n \<Rightarrow>
          distinct (children n) \<and> length (children n) \<le> unat (refcount n) \<and>
          (\<forall>c \<in> set (children n).
             case node_at s c of None \<Rightarrow> False | Some cn \<Rightarrow> parent cn = a))"

text \<open>
  A node in the middle of \<^verbatim>\<open>RemoveFromParent\<close>: already erased from the children list, its
  parent pointer not yet cleared.
\<close>

definition detached :: "fs \<Rightarrow> addr \<Rightarrow> bool" where
  "detached s e \<longleftrightarrow>
     (case node_at s e of
        None \<Rightarrow> True
      | Some n \<Rightarrow>
          parent n \<noteq> nullptr \<and>
          (\<forall>q \<in> live_nodes s.
             case node_at s q of None \<Rightarrow> True | Some qn \<Rightarrow> e \<notin> set (children qn)))"

text \<open>The invariant of the tree and the tracker, up to the nodes \<open>E\<close> being unlinked.\<close>

definition ginv :: "addr set \<Rightarrow> fs \<Rightarrow> bool" where
  "ginv E s \<longleftrightarrow>
     active_nodes (tracker s) = live_nodes s \<and>
     nullptr \<notin> live_nodes s \<and>
     (\<forall>a \<in> live_nodes s. children_ok s a) \<and>
     (\<forall>a \<in> live_nodes s - E. linked s a) \<and>
     (\<forall>e \<in> E. detached s e)"

text \<open>
  The tree and tracker invariant in the words of the specification: children point back to
  their parent, a node with a parent is listed exactly once by it, and the tracker holds
  exactly the allocated nodes.
\<close>

definition tree_tracker_inv :: "fs \<Rightarrow> bool" where
  "tree_tracker_inv s \<longleftrightarrow>
     (\<forall>a \<in> live_nodes s.
        case node_at s a of
          None \<Rightarrow> False
        | Some n \<Rightarrow>
            (\<forall>c \<in> set (children n).
               case node_at s c of None \<Rightarrow> False | Some cn \<Rightarrow> parent cn = a) \<and>
            (parent n \<noteq> nullptr \<longrightarrow>
               (case node_at s (parent n) of
                  None \<Rightarrow> False
                | Some p \<Rightarrow> count_list (children p) a = 1))) \<and>
     active_nodes (tracker s) = live_nodes s"

text \<open>The test of the loop in \<^verbatim>\<open>LookupChildByName\<close>.\<close>

definition matches :: "fs \<Rightarrow> string \<Rightarrow> addr \<Rightarrow> bool" where
  "matches s nm c \<longleftrightarrow>
     (case node_at s c of
        None \<Rightarrow> False
      | Some cn \<Rightarrow> strcasecmp (c_str nm) (c_str (name cn)) = 0 \<and> \<not> deleted cn)"

text \<open>
  The two conditions of the surrounding protocol: an acquisition does not wrap the 32-bit
  count, and a release leaves a node the references that its children hold.
\<close>

definition no_wrap :: "fs \<Rightarrow> addr \<Rightarrow> bool" where
  "no_wrap s a \<longleftrightarrow> (case node_at s a of None \<Rightarrow> True | Some n \<Rightarrow> refcount n + 1 \<noteq> 0)"

definition keeps_child_refs :: "fs \<Rightarrow> addr \<Rightarrow> 32 word \<Rightarrow> bool" where
  "keeps_child_refs s a count \<longleftrightarrow>
     (case node_at s a of
        None \<Rightarrow> True
      | Some n \<Rightarrow>
          count \<le> refcount n \<longrightarrow> length (children n) + unat count \<le> unat (refcount n))"

definition empty_fs :: fs where
  "empty_fs = \<lparr>heap = [], tracker = \<lparr>active_nodes = {}\<rparr>\<rparr>"

text \<open>
  A node holds a reference of its own when it has more references than children: one of
  them belongs to a caller, and the releases that its children cause cannot take it.
\<close>

definition holds_own_ref :: "fs \<Rightarrow> addr \<Rightarrow> bool" where
  "holds_own_ref s a \<longleftrightarrow>
     (case node_at s a of None \<Rightarrow> False | Some n \<Rightarrow> length (children n) < unat (refcount n))"

text \<open>
  The outcomes at which the model and the program part: the program does not stop at a
  pointer to a deallocated node, it reads or writes the memory behind it.
\<close>

definition undefined_behaviour :: "error + 'a \<Rightarrow> bool" where
  "undefined_behaviour r \<longleftrightarrow>
     (case r of Inl (BadPointer a) \<Rightarrow> True | Inl (Fatal c) \<Rightarrow> False | Inr x \<Rightarrow> False)"

text \<open>What is left of the result of an operation when the returned value is dropped.\<close>

definition outcome :: "error + (fs \<times> 'a) \<Rightarrow> error + fs" where
  "outcome r = (case r of Inl e \<Rightarrow> Inl e | Inr (s, x) \<Rightarrow> Inr s)"

text \<open>
  One call of a public operation under the protocol, with its outcome in the model. The
  node arguments are allocated nodes (the parent given to \<open>Create\<close> may be null), a new
  node gets a fresh address, and a new parent given to \<open>Rename\<close> holds a reference of
  its own.
\<close>

inductive step :: "fs \<Rightarrow> error + fs \<Rightarrow> bool" where
  by_Create:
    "this \<noteq> nullptr \<Longrightarrow> node_at s this = None \<Longrightarrow>
     parent0 = nullptr \<or> node_at s parent0 \<noteq> None \<Longrightarrow> no_wrap s parent0 \<Longrightarrow>
     step s (outcome (Create s this parent0 nm))"
| by_CreateRoot:
    "this \<noteq> nullptr \<Longrightarrow> node_at s this = None \<Longrightarrow>
     step s (outcome (CreateRoot s this path))"
| by_LookupChildByName:
    "node_at s this \<noteq> None \<Longrightarrow>
     \<forall>s' r. acquire \<longrightarrow> LookupChildByName s this nm acquire = Inr (s', r) \<longrightarrow> no_wrap s r \<Longrightarrow>
     step s (outcome (LookupChildByName s this nm acquire))"
| by_SetDeleted:
    "node_at s this \<noteq> None \<Longrightarrow> step s (SetDeleted s this)"
| by_Rename:
    "node_at s this = Some n \<Longrightarrow>
     new_parent = parent n \<or> holds_own_ref s new_parent \<and> no_wrap s new_parent \<Longrightarrow>
     step s (Rename s this nm new_parent)"
| by_Release:
    "node_at s this \<noteq> None \<Longrightarrow> keeps_child_refs s this count \<Longrightarrow>
     step s (outcome (Release s this count))"
| by_AddHandle:
    "node_at s this \<noteq> None \<Longrightarrow> step s (AddHandle s this h obj)"
| by_DestroyHandle:
    "node_at s this \<noteq> None \<Longrightarrow> step s (DestroyHandle s this h)"
| by_AddDirHandle:
    "node_at s this \<noteq> None \<Longrightarrow> step s (AddDirHandle s this dh dobj)"
| by_DestroyDirHandle:
    "node_at s this \<noteq> None \<Longrightarrow> step s (DestroyDirHandle s this dh)"

text \<open>The states that such calls build from the empty state.\<close>

inductive reachable :: "fs \<Rightarrow> bool" where
  initial: "reachable empty_fs"
| next_state: "reachable s \<Longrightarrow> step s (Inr s') \<Longrightarrow> reachable s'"

text \<open>
  A node object without handles that is not marked deleted, as the constructor leaves it up
  to its links, and the state that holds the given objects and tracks all of them.
\<close>

definition plain_node :: "string \<Rightarrow> 32 word \<Rightarrow> addr list \<Rightarrow> addr \<Rightarrow> node" where
  "plain_node nm r cs p =
     \<lparr>name = nm, refcount = r, children = cs, parent = p,
      handles = [], dirhandles = [], deleted = False\<rparr>"

definition fs_with :: "(addr \<times> node) list \<Rightarrow> fs" where
  "fs_with h = \<lparr>heap = h, tracker = \<lparr>active_nodes = fst ` set h\<rparr>\<rparr>"

section \<open>The store\<close>

declare Release.simps [simp del] delete_this.simps [simp del] RemoveFromParent.simps [simp del]

lemma node_at_store [simp]:
  "node_at (store s a n) b = (if b = a then Some n else node_at s b)"
  by (simp add: node_at_def store_def update_conv')

lemma node_at_free [simp]:
  "node_at (free s a) b = (if b = a then None else node_at s b)"
  by (simp add: node_at_def free_def delete_conv')

lemma node_at_tracker_update [simp]: "node_at (s\<lparr>tracker := t\<rparr>) a = node_at s a"
  by (simp add: node_at_def)

lemma tracker_store [simp]: "tracker (store s a n) = tracker s"
  by (simp add: store_def)

lemma tracker_free [simp]: "tracker (free s a) = tracker s"
  by (simp add: free_def)

lemma store_same: "node_at s a = Some n \<Longrightarrow> store s a n = s"
  by (simp add: node_at_def store_def update_triv)

lemma store_store [simp]: "store (store s a n) a n' = store s a n'"
  by (simp add: store_def)

lemma store_tracker_update: "store (s\<lparr>tracker := t\<rparr>) a n = (store s a n)\<lparr>tracker := t\<rparr>"
  by (simp add: store_def)

lemmas inv_eval =
  sinv_def ginv_def tree_tracker_inv_def live_nodes_def linked_def unreferenced_def
  children_ok_def detached_def no_wrap_def keeps_child_refs_def matches_def holds_own_ref_def
  outcome_def undefined_behaviour_def

lemmas str_eval = tolower_def c_str_def char_of_def bit_Suc_0_iff

lemmas eval_simps =
  node_at_def store_def free_def Release.simps delete_this.simps RemoveFromParent.simps
  NodeDeleted_def NodeCreated_def CheckTracked_def kEnableInodeTracking_def Acquire_def
  AddToParent_def node_ctor_def Create_def CreateRoot_def plain_node_def fs_with_def empty_fs_def
  insert_commute insert_Diff_if

section \<open>The invariants in logical form\<close>

lemma live_nodes_iff: "a \<in> live_nodes s \<longleftrightarrow> node_at s a \<noteq> None"
  by (simp add: live_nodes_def node_at_def map_of_eq_None_iff)

lemma linked_iff:
  "linked s a \<longleftrightarrow>
     (\<exists>n. node_at s a = Some n \<and>
          (parent n \<noteq> nullptr \<longrightarrow> (\<exists>p. node_at s (parent n) = Some p \<and> a \<in> set (children p))))"
  by (auto simp: linked_def split: option.splits)

lemma unreferenced_iff: "unreferenced s a \<longleftrightarrow> (\<exists>n. node_at s a = Some n \<and> refcount n = 0)"
  by (auto simp: unreferenced_def split: option.splits)

lemma sinv_iff:
  "sinv X s \<longleftrightarrow>
     (\<forall>a n. node_at s a = Some n \<longrightarrow> a \<in> active_nodes (tracker s)) \<and>
     (\<forall>a n. node_at s a = Some n \<longrightarrow> a \<notin> X \<longrightarrow> parent n \<noteq> nullptr \<longrightarrow>
            (\<exists>p. node_at s (parent n) = Some p \<and> a \<in> set (children p))) \<and>
     (\<forall>x \<in> X. \<exists>n. node_at s x = Some n \<and> refcount n = 0)"
  unfolding sinv_def subset_iff Ball_def Diff_iff live_nodes_iff linked_iff unreferenced_iff
  by auto

lemma spost_iff:
  "spost X s \<longleftrightarrow>
     (\<forall>a n. node_at s a = Some n \<longrightarrow> a \<in> active_nodes (tracker s)) \<and>
     (\<forall>x \<in> X. \<exists>n. node_at s x = Some n \<and> refcount n = 0)"
  unfolding spost_def subset_iff live_nodes_iff unreferenced_iff Ball_def
  by auto

lemma sinv_store_refcount:
  assumes "sinv X s" "node_at s a = Some n" "a \<notin> X"
  shows "sinv (insert a X) (store s a (n\<lparr>refcount := 0\<rparr>))"
  using assms unfolding sinv_iff
  apply (intro conjI allI impI ballI)
  subgoal by (auto split: if_splits)
  subgoal for b m by (cases "parent m = a"; cases "b = a"; force)
  subgoal by (auto split: if_splits)
  done

lemma sinv_erase:
  assumes "sinv X s" "a \<in> X" "node_at s q = Some p"
  shows "sinv X (store s q (p\<lparr>children := remove1 a (children p)\<rparr>))"
  using assms unfolding sinv_iff
  apply (intro conjI allI impI ballI)
  subgoal by (auto split: if_splits)
  subgoal for b m
    apply (subgoal_tac "b \<noteq> a")
     apply (cases "parent m = q"; cases "b = q"; force)
    apply blast
    done
  subgoal by (auto split: if_splits)
  done


lemma sinv_spost: "sinv X s \<Longrightarrow> spost X s"
  unfolding sinv_iff spost_iff by blast

lemma linked_store_refcount:
  assumes "linked s a" "node_at s a = Some n"
  shows "linked (store s a (n\<lparr>refcount := r\<rparr>)) a"
  using assms unfolding linked_iff by auto

lemma sinv_linked: "sinv X s \<Longrightarrow> node_at s a = Some n \<Longrightarrow> a \<notin> X \<Longrightarrow> linked s a"
  unfolding sinv_iff linked_iff by blast

lemma sinv_unreferenced: "sinv X s \<Longrightarrow> a \<in> X \<Longrightarrow> \<exists>n. node_at s a = Some n \<and> refcount n = 0"
  unfolding sinv_iff by blast

lemma spost_unreferenced: "spost X s \<Longrightarrow> a \<in> X \<Longrightarrow> \<exists>n. node_at s a = Some n \<and> refcount n = 0"
  unfolding spost_iff by blast

lemma spost_tracked: "spost X s \<Longrightarrow> node_at s a = Some n \<Longrightarrow> a \<in> active_nodes (tracker s)"
  unfolding spost_iff by blast

lemma cascade_succeeds:
  "(\<forall>X. sinv X s \<longrightarrow> node_at s a \<noteq> None \<longrightarrow> (a \<in> X \<longrightarrow> c \<noteq> 0) \<longrightarrow>
       (\<exists>s' b. Release s a c = Inr (s', b) \<and> spost X s'))"
  "(\<forall>X. sinv X s1 \<longrightarrow> a1 \<in> X \<longrightarrow> linked s1 a1 \<longrightarrow>
       (\<exists>s'. delete_this s1 a1 = Inr s' \<and> spost (X - {a1}) s'))"
  "(\<forall>X. sinv X s2 \<longrightarrow> a2 \<in> X \<longrightarrow> linked s2 a2 \<longrightarrow>
       (\<exists>s'. RemoveFromParent s2 a2 = Inr s' \<and> spost X s'))"
proof (induction s a c and s1 a1 and s2 a2 rule: Release_delete_this_RemoveFromParent.induct)
  case (1 s this count)
  show ?case
  proof (intro allI impI)
    fix X
    assume inv: "sinv X s" and lv: "node_at s this \<noteq> None" and cX: "this \<in> X \<longrightarrow> count \<noteq> 0"
    from lv obtain n where n: "node_at s this = Some n" by blast
    have notX: "this \<notin> X" if "count \<le> refcount n"
    proof
      assume "this \<in> X"
      with sinv_unreferenced [OF inv] n have "refcount n = 0" by fastforce
      with that have "count = 0" by simp
      with cX \<open>this \<in> X\<close> show False by simp
    qed
    show "\<exists>s' b. Release s this count = Inr (s', b) \<and> spost X s'"
    proof (cases "count \<le> refcount n")
      case False
      with n have "Release s this count = Inr (s, False)" by (simp add: Release.simps)
      with sinv_spost [OF inv] show ?thesis by blast
    next
      case le: True
      show ?thesis
      proof (cases "refcount n - count = 0")
        case False
        with n le have "Release s this count
            = Inr (store s this (n\<lparr>refcount := refcount n - count\<rparr>), False)"
          by (simp add: Release.simps)
        moreover have "spost X (store s this (n\<lparr>refcount := refcount n - count\<rparr>))"
          using sinv_spost [OF inv] notX [OF le] n unfolding spost_iff
          by (auto split: if_splits)
        ultimately show ?thesis by blast
      next
        case True
        let ?s1 = "store s this (n\<lparr>refcount := refcount n - count\<rparr>)"
        from True have s1: "?s1 = store s this (n\<lparr>refcount := 0\<rparr>)" by simp
        have "sinv (insert this X) ?s1"
          unfolding s1 by (rule sinv_store_refcount [OF inv n notX [OF le]])
        moreover have "linked ?s1 this"
          by (rule linked_store_refcount [OF sinv_linked [OF inv n notX [OF le]] n])
        ultimately obtain s' where d: "delete_this ?s1 this = Inr s'"
          and p: "spost (insert this X - {this}) s'"
          using "1.IH" [OF n le True] by blast
        from notX [OF le] have "insert this X - {this} = X" by blast
        with p have "spost X s'" by simp
        moreover from n le True d have "Release s this count = Inr (s', True)"
          by (simp add: Release.simps)
        ultimately show ?thesis by blast
      qed
    qed
  qed
next
  case (2 s this)
  show ?case
  proof (intro allI impI)
    fix X
    assume inv: "sinv X s" and inX: "this \<in> X" and lk: "linked s this"
    from "2.IH" inv inX lk obtain s1 where r: "RemoveFromParent s this = Inr s1"
      and p: "spost X s1" by blast
    from spost_unreferenced [OF p inX] obtain n1 where n1: "node_at s1 this = Some n1" by blast
    from spost_tracked [OF p n1] have tr: "this \<in> active_nodes (tracker s1)" .
    let ?s' = "free (store s1 this (n1\<lparr>handles := [], dirhandles := []\<rparr>)) this
                 \<lparr>tracker := tracker s1\<lparr>active_nodes := active_nodes (tracker s1) - {this}\<rparr>\<rparr>"
    from r n1 tr have "delete_this s this = Inr ?s'"
      by (simp add: delete_this.simps NodeDeleted_def kEnableInodeTracking_def)
    moreover have "spost (X - {this}) ?s'"
      using p unfolding spost_iff by (auto split: if_splits)
    ultimately show "\<exists>s'. delete_this s this = Inr s' \<and> spost (X - {this}) s'" by blast
  qed
next
  case (3 s this)
  show ?case
  proof (intro allI impI)
    fix X
    assume inv: "sinv X s" and inX: "this \<in> X" and lk: "linked s this"
    from sinv_unreferenced [OF inv inX] obtain n where n: "node_at s this = Some n" by blast
    show "\<exists>s'. RemoveFromParent s this = Inr s' \<and> spost X s'"
    proof (cases "parent n = nullptr")
      case True
      with n have "RemoveFromParent s this = Inr s" by (simp add: RemoveFromParent.simps)
      with sinv_spost [OF inv] show ?thesis by blast
    next
      case False
      with lk n obtain p where p: "node_at s (parent n) = Some p" and mem: "this \<in> set (children p)"
        unfolding linked_iff by auto
      let ?s1 = "store s (parent n) (p\<lparr>children := remove1 this (children p)\<rparr>)"
      have "sinv X ?s1" by (rule sinv_erase [OF inv inX p])
      moreover have "node_at ?s1 (parent n) \<noteq> None" by simp
      ultimately obtain s2 b where rel: "Release ?s1 (parent n) 1 = Inr (s2, b)" and sp: "spost X s2"
        using "3.IH" [OF n False p mem] by (metis zero_neq_one)
      from spost_unreferenced [OF sp inX] obtain n2 where n2: "node_at s2 this = Some n2"
        and z: "refcount n2 = 0" by blast
      from n False p mem rel n2
      have "RemoveFromParent s this = Inr (store s2 this (n2\<lparr>parent := nullptr\<rparr>))"
        by (simp add: RemoveFromParent.simps)
      moreover have "spost X (store s2 this (n2\<lparr>parent := nullptr\<rparr>))"
        using sp n2 z unfolding spost_iff by (auto split: if_splits)
      ultimately show ?thesis by blast
    qed
  qed
qed

lemma children_ok_iff:
  "children_ok s a \<longleftrightarrow>
     (\<forall>n. node_at s a = Some n \<longrightarrow>
        distinct (children n) \<and> length (children n) \<le> unat (refcount n) \<and>
        (\<forall>c \<in> set (children n). \<exists>cn. node_at s c = Some cn \<and> parent cn = a))"
  by (auto simp: children_ok_def split: option.splits)

lemma detached_iff:
  "detached s e \<longleftrightarrow>
     (\<forall>n. node_at s e = Some n \<longrightarrow>
        parent n \<noteq> nullptr \<and> (\<forall>q qn. node_at s q = Some qn \<longrightarrow> e \<notin> set (children qn)))"
  by (auto simp: detached_def live_nodes_iff split: option.splits)

lemma ginv_iff:
  "ginv E s \<longleftrightarrow>
     (\<forall>a. a \<in> active_nodes (tracker s) \<longleftrightarrow> node_at s a \<noteq> None) \<and>
     node_at s nullptr = None \<and>
     (\<forall>a n. node_at s a = Some n \<longrightarrow>
        distinct (children n) \<and> length (children n) \<le> unat (refcount n) \<and>
        (\<forall>c \<in> set (children n). \<exists>cn. node_at s c = Some cn \<and> parent cn = a)) \<and>
     (\<forall>a n. node_at s a = Some n \<longrightarrow> a \<notin> E \<longrightarrow> parent n \<noteq> nullptr \<longrightarrow>
        (\<exists>p. node_at s (parent n) = Some p \<and> a \<in> set (children p))) \<and>
     (\<forall>e \<in> E. \<forall>n. node_at s e = Some n \<longrightarrow>
        parent n \<noteq> nullptr \<and> (\<forall>q qn. node_at s q = Some qn \<longrightarrow> e \<notin> set (children qn)))"
  unfolding ginv_def set_eq_iff Ball_def Diff_iff live_nodes_iff linked_iff children_ok_iff detached_iff
  by auto

lemma ginvD:
  assumes "ginv E s"
  shows ginv_tracker: "a \<in> active_nodes (tracker s) \<longleftrightarrow> node_at s a \<noteq> None"
    and ginv_null: "node_at s nullptr = None"
    and ginv_distinct: "node_at s a = Some n \<Longrightarrow> distinct (children n)"
    and ginv_count: "node_at s a = Some n \<Longrightarrow> length (children n) \<le> unat (refcount n)"
    and ginv_child: "node_at s a = Some n \<Longrightarrow> c \<in> set (children n)
        \<Longrightarrow> \<exists>cn. node_at s c = Some cn \<and> parent cn = a"
    and ginv_linked: "node_at s a = Some n \<Longrightarrow> a \<notin> E \<Longrightarrow> parent n \<noteq> nullptr
        \<Longrightarrow> \<exists>p. node_at s (parent n) = Some p \<and> a \<in> set (children p)"
    and ginv_detached_parent: "e \<in> E \<Longrightarrow> node_at s e = Some n \<Longrightarrow> parent n \<noteq> nullptr"
    and ginv_detached: "e \<in> E \<Longrightarrow> node_at s e = Some n \<Longrightarrow> node_at s q = Some qn
        \<Longrightarrow> e \<notin> set (children qn)"
  using assms unfolding ginv_iff by blast+

lemma cascade_refcount_mono:
  "\<forall>s' b x n'. Release s a c = Inr (s', b) \<longrightarrow> node_at s' x = Some n' \<longrightarrow>
      (\<exists>n. node_at s x = Some n \<and> refcount n' \<le> refcount n)"
  "\<forall>s' x n'. delete_this s1 a1 = Inr s' \<longrightarrow> node_at s' x = Some n' \<longrightarrow>
      (\<exists>n. node_at s1 x = Some n \<and> refcount n' \<le> refcount n)"
  "\<forall>s' x n'. RemoveFromParent s2 a2 = Inr s' \<longrightarrow> node_at s' x = Some n' \<longrightarrow>
      (\<exists>n. node_at s2 x = Some n \<and> refcount n' \<le> refcount n)"
proof (induction s a c and s1 a1 and s2 a2 rule: Release_delete_this_RemoveFromParent.induct)
  case (1 s this count)
  show ?case
  proof (intro allI impI)
    fix s' b x n'
    assume rel: "Release s this count = Inr (s', b)" and x: "node_at s' x = Some n'"
    from rel obtain n where n: "node_at s this = Some n"
      by (auto simp: Release.simps [of s this count] split: option.splits)
    show "\<exists>n. node_at s x = Some n \<and> refcount n' \<le> refcount n"
    proof (cases "count \<le> refcount n")
      case False
      with rel n x show ?thesis by (simp add: Release.simps)
    next
      case le: True
      then have sub: "refcount n - count \<le> refcount n" by (rule word_sub_le)
      show ?thesis
      proof (cases "refcount n - count = 0")
        case False
        with rel n le have "s' = store s this (n\<lparr>refcount := refcount n - count\<rparr>)"
          by (simp add: Release.simps)
        with x n sub show ?thesis by (auto split: if_splits)
      next
        case True
        with rel n le have "delete_this (store s this (n\<lparr>refcount := refcount n - count\<rparr>)) this = Inr s'"
          by (simp add: Release.simps split: sum.splits)
        with "1.IH" [OF n le True] x obtain n1
          where n1: "node_at (store s this (n\<lparr>refcount := refcount n - count\<rparr>)) x = Some n1"
            and le1: "refcount n' \<le> refcount n1" by blast
        with n sub show ?thesis by (auto split: if_splits)
      qed
    qed
  qed
next
  case (2 s this)
  show ?case
  proof (intro allI impI)
    fix s' x n'
    assume d: "delete_this s this = Inr s'" and x: "node_at s' x = Some n'"
    from d obtain s1 n1 where r: "RemoveFromParent s this = Inr s1"
      and s': "s' = free (store s1 this (n1\<lparr>handles := [], dirhandles := []\<rparr>)) this
                 \<lparr>tracker := tracker s1\<lparr>active_nodes := active_nodes (tracker s1) - {this}\<rparr>\<rparr>"
      by (auto simp: delete_this.simps [of s this] NodeDeleted_def kEnableInodeTracking_def
          split: sum.splits option.splits if_splits)
    from x s' have "node_at s1 x = Some n'" by (auto split: if_splits)
    with "2.IH" r show "\<exists>n. node_at s x = Some n \<and> refcount n' \<le> refcount n" by blast
  qed
next
  case (3 s this)
  show ?case
  proof (intro allI impI)
    fix s' x n'
    assume r: "RemoveFromParent s this = Inr s'" and x: "node_at s' x = Some n'"
    from r obtain n where n: "node_at s this = Some n"
      by (auto simp: RemoveFromParent.simps [of s this] split: option.splits)
    show "\<exists>n. node_at s x = Some n \<and> refcount n' \<le> refcount n"
    proof (cases "parent n = nullptr")
      case True
      with r n x show ?thesis by (simp add: RemoveFromParent.simps)
    next
      case False
      with r n obtain p where p: "node_at s (parent n) = Some p" and mem: "this \<in> set (children p)"
        by (auto simp: RemoveFromParent.simps [of s this] split: option.splits if_splits)
      let ?s1 = "store s (parent n) (p\<lparr>children := remove1 this (children p)\<rparr>)"
      from r n False p mem obtain s2 b n2 where rel: "Release ?s1 (parent n) 1 = Inr (s2, b)"
        and n2: "node_at s2 this = Some n2" and s': "s' = store s2 this (n2\<lparr>parent := nullptr\<rparr>)"
        by (auto simp: RemoveFromParent.simps [of s this] split: sum.splits option.splits)
      from x s' n2 obtain m where m: "node_at s2 x = Some m" and rm: "refcount n' = refcount m"
        by (auto split: if_splits)
      from "3.IH" [OF n False p mem] rel m obtain m1 where "node_at ?s1 x = Some m1"
        and "refcount m \<le> refcount m1" by blast
      with p rm show ?thesis by (auto split: if_splits)
    qed
  qed
qed

lemma ginv_store_same_links:
  assumes inv: "ginv E s" and n: "node_at s a = Some n"
    and ch: "children n' = children n" and pa: "parent n' = parent n"
    and cnt: "length (children n) \<le> unat (refcount n')"
  shows "ginv E (store s a n')"
  unfolding ginv_iff
proof (intro conjI allI impI ballI)
  fix b show "b \<in> active_nodes (tracker (store s a n')) \<longleftrightarrow> node_at (store s a n') b \<noteq> None"
    using ginv_tracker [OF inv, of b] n by auto
next
  show "node_at (store s a n') nullptr = None"
    using ginv_null [OF inv] n by auto
next
  fix b m assume b: "node_at (store s a n') b = Some m"
  then obtain m0 where m0: "node_at s b = Some m0" and chm: "children m = children m0"
    and pam: "parent m = parent m0"
    and le: "length (children m) \<le> unat (refcount m)"
    using n cnt ch pa ginv_count [OF inv, of b] by (auto split: if_splits)
  show "distinct (children m)" using ginv_distinct [OF inv m0] chm by simp
  show "length (children m) \<le> unat (refcount m)" by (rule le)
  {
    fix c assume "c \<in> set (children m)"
    with ginv_child [OF inv m0] chm obtain cn where "node_at s c = Some cn" "parent cn = b" by auto
    with n pa show "\<exists>cn. node_at (store s a n') c = Some cn \<and> parent cn = b"
      by auto
  }
  {
    assume "b \<notin> E" "parent m \<noteq> nullptr"
    with pam obtain p where "node_at s (parent m) = Some p" "b \<in> set (children p)"
      using ginv_linked [OF inv m0] by auto
    with n ch show "\<exists>p. node_at (store s a n') (parent m) = Some p \<and> b \<in> set (children p)"
      by auto
  }
next
  fix e m assume e: "e \<in> E" and m: "node_at (store s a n') e = Some m"
  then obtain m0 where m0: "node_at s e = Some m0" and pm: "parent m = parent m0"
    using n pa by (auto split: if_splits)
  show "parent m \<noteq> nullptr" using ginv_detached_parent [OF inv e m0] pm by simp
  fix q qn assume "node_at (store s a n') q = Some qn"
  then obtain q0 where "node_at s q = Some q0" "children qn = children q0"
    using n ch by (auto split: if_splits)
  with ginv_detached [OF inv e m0] show "e \<notin> set (children qn)" by simp
qed

text \<open>Erasing a node from its parent's list: the node becomes detached.\<close>

lemma ginv_erase:
  assumes inv: "ginv E s" and n: "node_at s a = Some n" and pn: "parent n \<noteq> nullptr"
    and p: "node_at s (parent n) = Some p" and mem: "a \<in> set (children p)"
  shows "ginv (insert a E) (store s (parent n) (p\<lparr>children := remove1 a (children p)\<rparr>))"
    (is "ginv _ ?s1")
  unfolding ginv_iff
proof (intro conjI allI impI ballI)
  fix b show "b \<in> active_nodes (tracker ?s1) \<longleftrightarrow> node_at ?s1 b \<noteq> None"
    using ginv_tracker [OF inv, of b] p by auto
next
  show "node_at ?s1 nullptr = None"
    using ginv_null [OF inv] p by auto
next
  fix b m assume b: "node_at ?s1 b = Some m"
  then obtain m0 where m0: "node_at s b = Some m0" and sub: "set (children m) \<subseteq> set (children m0)"
    and pam: "parent m = parent m0" and rm: "refcount m = refcount m0"
    and len: "length (children m) \<le> length (children m0)"
    and dist: "distinct (children m0) \<Longrightarrow> distinct (children m)"
  proof (cases "b = parent n")
    case True
    with b have "m = p\<lparr>children := remove1 a (children p)\<rparr>" by simp
    with p True that [of p] set_remove1_subset [of a "children p"] show ?thesis
      by (simp add: length_remove1)
  next
    case False
    with b that [of m] show ?thesis by simp
  qed
  show "distinct (children m)" using ginv_distinct [OF inv m0] dist by simp
  show "length (children m) \<le> unat (refcount m)" using ginv_count [OF inv m0] len rm by simp
  {
    fix c assume "c \<in> set (children m)"
    with sub have "c \<in> set (children m0)" by blast
    with ginv_child [OF inv m0] obtain cn where "node_at s c = Some cn" "parent cn = b" by auto
    with p show "\<exists>cn. node_at ?s1 c = Some cn \<and> parent cn = b"
      by auto
  }
  {
    assume bE: "b \<notin> insert a E" and "parent m \<noteq> nullptr"
    with pam obtain q where q: "node_at s (parent m) = Some q" and bq: "b \<in> set (children q)"
      using ginv_linked [OF inv m0] by auto
    from bE have "b \<noteq> a" by simp
    with bq have "b \<in> set (remove1 a (children q))" by simp
    with q bq p show "\<exists>p. node_at ?s1 (parent m) = Some p \<and> b \<in> set (children p)"
      by auto
  }
next
  fix e m assume e: "e \<in> insert a E" and m: "node_at ?s1 e = Some m"
  then obtain m0 where m0: "node_at s e = Some m0" and pm: "parent m = parent m0"
    using p by (auto split: if_splits)
  show "parent m \<noteq> nullptr"
  proof (cases "e = a")
    case True with m0 n pn pm show ?thesis by simp
  next
    case False with e ginv_detached_parent [OF inv _ m0] pm show ?thesis by simp
  qed
  fix q qn assume q: "node_at ?s1 q = Some qn"
  show "e \<notin> set (children qn)"
  proof (cases "e = a")
    case False
    with e have eE: "e \<in> E" by simp
    from q p set_remove1_subset [of a "children p"]
    obtain q0 where "node_at s q = Some q0" "set (children qn) \<subseteq> set (children q0)"
      by (auto split: if_splits)
    with ginv_detached [OF inv eE m0] show ?thesis by blast
  next
    case True
    show ?thesis
    proof (cases "q = parent n")
      case True
      with q have "children qn = remove1 a (children p)" by auto
      with ginv_distinct [OF inv p] \<open>e = a\<close> show ?thesis by simp
    next
      case False
      with q have q0: "node_at s q = Some qn" by simp
      show ?thesis
      proof
        assume "e \<in> set (children qn)"
        with ginv_child [OF inv q0] \<open>e = a\<close> n have "parent n = q" by fastforce
        with False show False by simp
      qed
    qed
  qed
qed

text \<open>Clearing the parent pointer of a detached node.\<close>

lemma ginv_unparent:
  assumes inv: "ginv (insert a E) s" and aE: "a \<notin> E" and n: "node_at s a = Some n"
  shows "ginv E (store s a (n\<lparr>parent := nullptr\<rparr>))" (is "ginv _ ?s1")
  unfolding ginv_iff
proof (intro conjI allI impI ballI)
  fix b show "b \<in> active_nodes (tracker ?s1) \<longleftrightarrow> node_at ?s1 b \<noteq> None"
    using ginv_tracker [OF inv, of b] n by auto
next
  show "node_at ?s1 nullptr = None"
    using ginv_null [OF inv] n by auto
next
  have det: "a \<notin> set (children qn)" if "node_at s q = Some qn" for q qn
    using ginv_detached [OF inv _ n that] by simp
  fix b m assume b: "node_at ?s1 b = Some m"
  then obtain m0 where m0: "node_at s b = Some m0" and chm: "children m = children m0"
    and rm: "refcount m = refcount m0" and pam: "b \<noteq> a \<Longrightarrow> parent m = parent m0"
    and pa0: "b = a \<Longrightarrow> parent m = nullptr"
    using n by (auto split: if_splits)
  show "distinct (children m)" using ginv_distinct [OF inv m0] chm by simp
  show "length (children m) \<le> unat (refcount m)" using ginv_count [OF inv m0] chm rm by simp
  {
    fix c assume c: "c \<in> set (children m)"
    with ginv_child [OF inv m0] chm obtain cn where cn: "node_at s c = Some cn" "parent cn = b" by auto
    from c chm det [OF m0] have "c \<noteq> a" by auto
    with cn show "\<exists>cn. node_at ?s1 c = Some cn \<and> parent cn = b" by auto
  }
  {
    assume bE: "b \<notin> E" and pm: "parent m \<noteq> nullptr"
    with pa0 have ba: "b \<noteq> a" by auto
    with bE pm pam obtain q where q: "node_at s (parent m) = Some q" and bq: "b \<in> set (children q)"
      using ginv_linked [OF inv m0] by auto
    with n show "\<exists>p. node_at ?s1 (parent m) = Some p \<and> b \<in> set (children p)"
      by auto
  }
next
  fix e m assume e: "e \<in> E" and m: "node_at ?s1 e = Some m"
  with aE have ea: "e \<noteq> a" by auto
  with m have m0: "node_at s e = Some m" by simp
  show "parent m \<noteq> nullptr" using ginv_detached_parent [OF inv _ m0] e by simp
  fix q qn assume "node_at ?s1 q = Some qn"
  then obtain q0 where "node_at s q = Some q0" "children qn = children q0"
    using n by (auto split: if_splits)
  with ginv_detached [OF inv _ m0] e show "e \<notin> set (children qn)" by simp
qed

text \<open>Deallocating an unlinked node that has no children.\<close>

lemma ginv_free:
  assumes inv: "ginv E s" and n: "node_at s a = Some n" and pn: "parent n = nullptr"
    and ch: "children n = []"
  shows "ginv E (free (store s a m) a
                   \<lparr>tracker := tracker s\<lparr>active_nodes := active_nodes (tracker s) - {a}\<rparr>\<rparr>)"
    (is "ginv _ ?s1")
  unfolding ginv_iff
proof (intro conjI allI impI ballI)
  fix b show "b \<in> active_nodes (tracker ?s1) \<longleftrightarrow> node_at ?s1 b \<noteq> None"
    using ginv_tracker [OF inv, of b] n by auto
next
  show "node_at ?s1 nullptr = None"
    using ginv_null [OF inv] n by auto
next
  from ginv_null [OF inv] have nz: "q \<noteq> nullptr" if "node_at s q = Some qn" for q qn
    using that by auto
  have notchild: "a \<notin> set (children qn)" if q: "node_at s q = Some qn" for q qn
  proof
    assume "a \<in> set (children qn)"
    with ginv_child [OF inv q] n have "parent n = q" by fastforce
    with pn nz [OF q] show False by simp
  qed
  fix b m' assume b: "node_at ?s1 b = Some m'"
  then have ba: "b \<noteq> a" and m0: "node_at s b = Some m'" by (auto split: if_splits)
  show "distinct (children m')" using ginv_distinct [OF inv m0] by simp
  show "length (children m') \<le> unat (refcount m')" using ginv_count [OF inv m0] by simp
  {
    fix c assume c: "c \<in> set (children m')"
    with ginv_child [OF inv m0] obtain cn where cn: "node_at s c = Some cn" "parent cn = b" by auto
    from c notchild [OF m0] have "c \<noteq> a" by auto
    with cn show "\<exists>cn. node_at ?s1 c = Some cn \<and> parent cn = b" by auto
  }
  {
    assume bE: "b \<notin> E" and pm: "parent m' \<noteq> nullptr"
    then obtain q where q: "node_at s (parent m') = Some q" and bq: "b \<in> set (children q)"
      using ginv_linked [OF inv m0] by auto
    from q bq n ch have "parent m' \<noteq> a" by auto
    with q bq show "\<exists>p. node_at ?s1 (parent m') = Some p \<and> b \<in> set (children p)"
      by auto
  }
next
  fix e m' assume e: "e \<in> E" and m: "node_at ?s1 e = Some m'"
  then have m0: "node_at s e = Some m'" by (auto split: if_splits)
  show "parent m' \<noteq> nullptr" using ginv_detached_parent [OF inv e m0] by simp
  fix q qn assume "node_at ?s1 q = Some qn"
  then have "node_at s q = Some qn" by (auto split: if_splits)
  with ginv_detached [OF inv e m0] show "e \<notin> set (children qn)" by simp
qed

lemma cascade_preserves:
  "\<forall>E s' b n. ginv E s \<longrightarrow> Release s a c = Inr (s', b) \<longrightarrow> node_at s a = Some n \<longrightarrow>
      (c \<le> refcount n \<longrightarrow> length (children n) + unat c \<le> unat (refcount n)) \<longrightarrow> ginv E s'"
  "\<forall>E s' n. ginv E s1 \<longrightarrow> delete_this s1 a1 = Inr s' \<longrightarrow> node_at s1 a1 = Some n \<longrightarrow>
      refcount n = 0 \<longrightarrow> ginv E s'"
  "\<forall>E s'. ginv E s2 \<longrightarrow> RemoveFromParent s2 a2 = Inr s' \<longrightarrow>
      ginv E s' \<and> (\<exists>n'. node_at s' a2 = Some n' \<and> parent n' = nullptr)"
proof (induction s a c and s1 a1 and s2 a2 rule: Release_delete_this_RemoveFromParent.induct)
  case (1 s this count)
  show ?case
  proof (intro allI impI)
    fix E s' b n
    assume inv: "ginv E s" and rel: "Release s this count = Inr (s', b)"
      and n: "node_at s this = Some n"
      and side: "count \<le> refcount n \<longrightarrow> length (children n) + unat count \<le> unat (refcount n)"
    show "ginv E s'"
    proof (cases "count \<le> refcount n")
      case False
      with rel n have "s' = s" by (simp add: Release.simps)
      with inv show ?thesis by simp
    next
      case le: True
      let ?n1 = "n\<lparr>refcount := refcount n - count\<rparr>"
      from le side have "length (children n) \<le> unat (refcount n - count)"
        by (simp add: unat_sub)
      then have inv1: "ginv E (store s this ?n1)"
        by (intro ginv_store_same_links [OF inv n]) simp_all
      show ?thesis
      proof (cases "refcount n - count = 0")
        case False
        with rel n le have "s' = store s this ?n1" by (simp add: Release.simps)
        with inv1 show ?thesis by simp
      next
        case True
        with rel n le have d: "delete_this (store s this ?n1) this = Inr s'"
          by (simp add: Release.simps split: sum.splits)
        have "node_at (store s this ?n1) this = Some ?n1" by simp
        moreover from True have "refcount ?n1 = 0" by simp
        ultimately show ?thesis using "1.IH" [OF n le True] inv1 d by blast
      qed
    qed
  qed
next
  case (2 s this)
  show ?case
  proof (intro allI impI)
    fix E s' n
    assume inv: "ginv E s" and d: "delete_this s this = Inr s'"
      and n: "node_at s this = Some n" and z: "refcount n = 0"
    from d obtain s1 n1 where r: "RemoveFromParent s this = Inr s1"
      and n1: "node_at s1 this = Some n1"
      and s': "s' = free (store s1 this (n1\<lparr>handles := [], dirhandles := []\<rparr>)) this
                 \<lparr>tracker := tracker s1\<lparr>active_nodes := active_nodes (tracker s1) - {this}\<rparr>\<rparr>"
      by (auto simp: delete_this.simps [of s this] NodeDeleted_def kEnableInodeTracking_def
          split: sum.splits option.splits if_splits)
    from "2.IH" inv r n1 have inv1: "ginv E s1" and p1: "parent n1 = nullptr" by auto
    from cascade_refcount_mono(3) [of s this] r n1 n z have "refcount n1 = 0" by fastforce
    with ginv_count [OF inv1 n1] have "children n1 = []" by simp
    from ginv_free [OF inv1 n1 p1 this] s' show "ginv E s'" by simp
  qed
next
  case (3 s this)
  show ?case
  proof (intro allI impI)
    fix E s'
    assume inv: "ginv E s" and r: "RemoveFromParent s this = Inr s'"
    from r obtain n where n: "node_at s this = Some n"
      by (auto simp: RemoveFromParent.simps [of s this] split: option.splits)
    show "ginv E s' \<and> (\<exists>n'. node_at s' this = Some n' \<and> parent n' = nullptr)"
    proof (cases "parent n = nullptr")
      case True
      with r n have "s' = s" by (simp add: RemoveFromParent.simps)
      with inv n True show ?thesis by simp
    next
      case False
      with r n obtain p where p: "node_at s (parent n) = Some p" and mem: "this \<in> set (children p)"
        by (auto simp: RemoveFromParent.simps [of s this] split: option.splits if_splits)
      let ?p1 = "p\<lparr>children := remove1 this (children p)\<rparr>"
      let ?s1 = "store s (parent n) ?p1"
      from r n False p mem obtain s2 b n2 where rel: "Release ?s1 (parent n) 1 = Inr (s2, b)"
        and n2: "node_at s2 this = Some n2" and s': "s' = store s2 this (n2\<lparr>parent := nullptr\<rparr>)"
        by (auto simp: RemoveFromParent.simps [of s this] split: sum.splits option.splits)
      have notE: "this \<notin> E" using ginv_detached [OF inv _ n p] mem by blast
      have inv1: "ginv (insert this E) ?s1" by (rule ginv_erase [OF inv n False p mem])
      have p1: "node_at ?s1 (parent n) = Some ?p1" by simp
      from mem have "0 < length (children p)" by (cases "children p") auto
      with mem ginv_count [OF inv p]
      have "length (children ?p1) + unat (1 :: 32 word) \<le> unat (refcount ?p1)"
        by (simp add: length_remove1)
      with "3.IH" [OF n False p mem] inv1 rel p1 have inv2: "ginv (insert this E) s2"
        by blast
      from ginv_unparent [OF inv2 notE n2] s' have "ginv E s'" by simp
      with s' show ?thesis by simp
    qed
  qed
qed

section \<open>Linking and allocation keep the invariant\<close>

text \<open>Setting the parent pointer of a root: the node is detached until it is listed.\<close>

lemma ginv_set_parent:
  assumes inv: "ginv E s" and n: "node_at s a = Some n" and pn: "parent n = nullptr"
    and np: "np \<noteq> nullptr"
  shows "ginv (insert a E) (store s a (n\<lparr>parent := np\<rparr>))" (is "ginv _ ?s1")
  unfolding ginv_iff
proof (intro conjI allI impI ballI)
  fix b show "b \<in> active_nodes (tracker ?s1) \<longleftrightarrow> node_at ?s1 b \<noteq> None"
    using ginv_tracker [OF inv, of b] n by auto
next
  show "node_at ?s1 nullptr = None"
    using ginv_null [OF inv] n by auto
next
  from ginv_null [OF inv] have nz: "q \<noteq> nullptr" if "node_at s q = Some qn" for q qn
    using that by auto
  have notchild: "a \<notin> set (children qn)" if q: "node_at s q = Some qn" for q qn
  proof
    assume "a \<in> set (children qn)"
    with ginv_child [OF inv q] n have "parent n = q" by fastforce
    with pn nz [OF q] show False by simp
  qed
  fix b m assume b: "node_at ?s1 b = Some m"
  then obtain m0 where m0: "node_at s b = Some m0" and chm: "children m = children m0"
    and rm: "refcount m = refcount m0" and pam: "b \<noteq> a \<Longrightarrow> parent m = parent m0"
    using n by (auto split: if_splits)
  show "distinct (children m)" using ginv_distinct [OF inv m0] chm by simp
  show "length (children m) \<le> unat (refcount m)" using ginv_count [OF inv m0] chm rm by simp
  {
    fix c assume c: "c \<in> set (children m)"
    with ginv_child [OF inv m0] chm obtain cn where cn: "node_at s c = Some cn" "parent cn = b" by auto
    from c chm notchild [OF m0] have "c \<noteq> a" by auto
    with cn show "\<exists>cn. node_at ?s1 c = Some cn \<and> parent cn = b" by auto
  }
  {
    assume bE: "b \<notin> insert a E" and pm: "parent m \<noteq> nullptr"
    then have ba: "b \<noteq> a" by auto
    with bE pm pam obtain q where q: "node_at s (parent m) = Some q" and bq: "b \<in> set (children q)"
      using ginv_linked [OF inv m0] by auto
    with n show "\<exists>p. node_at ?s1 (parent m) = Some p \<and> b \<in> set (children p)"
      by auto
  }
next
  from ginv_null [OF inv] have nz: "q \<noteq> nullptr" if "node_at s q = Some qn" for q qn
    using that by auto
  have notchild: "a \<notin> set (children qn)" if q: "node_at s q = Some qn" for q qn
  proof
    assume "a \<in> set (children qn)"
    with ginv_child [OF inv q] n have "parent n = q" by fastforce
    with pn nz [OF q] show False by simp
  qed
  fix e m assume e: "e \<in> insert a E" and m: "node_at ?s1 e = Some m"
  show "parent m \<noteq> nullptr"
  proof (cases "e = a")
    case True with m np show ?thesis by auto
  next
    case False
    with e m have "e \<in> E" "node_at s e = Some m" by auto
    with ginv_detached_parent [OF inv] show ?thesis by blast
  qed
  fix q qn assume q: "node_at ?s1 q = Some qn"
  then obtain q0 where q0: "node_at s q = Some q0" and ch: "children qn = children q0"
    using n by (auto split: if_splits)
  show "e \<notin> set (children qn)"
  proof (cases "e = a")
    case True with notchild [OF q0] ch show ?thesis by simp
  next
    case False
    with e m have "e \<in> E" "node_at s e = Some m" by auto
    with ginv_detached [OF inv _ _ q0] ch show ?thesis by simp
  qed
qed

text \<open>Listing a detached node in its parent, which takes one more reference.\<close>

lemma ginv_attach:
  assumes inv: "ginv (insert a E) s" and aE: "a \<notin> E" and n: "node_at s a = Some n"
    and p: "node_at s (parent n) = Some p" and nw: "refcount p + 1 \<noteq> 0"
  shows "ginv E (store s (parent n) (p\<lparr>children := children p @ [a], refcount := refcount p + 1\<rparr>))"
    (is "ginv _ ?s1")
  unfolding ginv_iff
proof (intro conjI allI impI ballI)
  fix b show "b \<in> active_nodes (tracker ?s1) \<longleftrightarrow> node_at ?s1 b \<noteq> None"
    using ginv_tracker [OF inv, of b] p by auto
next
  show "node_at ?s1 nullptr = None"
    using ginv_null [OF inv] p by auto
next
  have det: "a \<notin> set (children qn)" if "node_at s q = Some qn" for q qn
    using ginv_detached [OF inv _ n that] by simp
  from nw have un: "unat (refcount p + 1) = Suc (unat (refcount p))"
    using unatSuc [of "refcount p"] by (simp add: add.commute)
  fix b m assume b: "node_at ?s1 b = Some m"
  then obtain m0 where m0: "node_at s b = Some m0" and pam: "parent m = parent m0"
    and chm: "b \<noteq> parent n \<Longrightarrow> children m = children m0"
    and chp: "b = parent n \<Longrightarrow> children m = children m0 @ [a]"
    and le: "length (children m0) \<le> unat (refcount m0) \<Longrightarrow> length (children m) \<le> unat (refcount m)"
    using p un by (auto split: if_splits)
  show "distinct (children m)"
    using ginv_distinct [OF inv m0] det [OF m0] chm chp by (cases "b = parent n") auto
  show "length (children m) \<le> unat (refcount m)" using ginv_count [OF inv m0] le by simp
  {
    fix c assume c: "c \<in> set (children m)"
    show "\<exists>cn. node_at ?s1 c = Some cn \<and> parent cn = b"
    proof (cases "c \<in> set (children m0)")
      case True
      with ginv_child [OF inv m0] obtain cn where "node_at s c = Some cn" "parent cn = b" by auto
      with p show ?thesis by auto
    next
      case False
      with c chm chp have "b = parent n" "c = a" by (cases "b = parent n"; auto)+
      with n p show ?thesis by auto
    qed
  }
  {
    assume bE: "b \<notin> E" and pm: "parent m \<noteq> nullptr"
    show "\<exists>q. node_at ?s1 (parent m) = Some q \<and> b \<in> set (children q)"
    proof (cases "b = a")
      case True
      with m0 n pam have "parent m = parent n" by simp
      with True show ?thesis by simp
    next
      case False
      with bE pm pam obtain q where "node_at s (parent m) = Some q" "b \<in> set (children q)"
        using ginv_linked [OF inv m0] by auto
      with p show ?thesis by auto
    qed
  }
next
  fix e m assume e: "e \<in> E" and m: "node_at ?s1 e = Some m"
  with aE have ea: "e \<noteq> a" by auto
  from m p obtain m0 where m0: "node_at s e = Some m0" and pm: "parent m = parent m0"
    by (auto split: if_splits)
  show "parent m \<noteq> nullptr" using ginv_detached_parent [OF inv _ m0] e pm by simp
  fix q qn assume "node_at ?s1 q = Some qn"
  then obtain q0 where "node_at s q = Some q0" "set (children qn) \<subseteq> insert a (set (children q0))"
    using p by (auto split: if_splits)
  with ginv_detached [OF inv _ m0] e ea show "e \<notin> set (children qn)" by auto
qed

text \<open>A newly allocated and registered object with one reference.\<close>

lemma ginv_alloc:
  assumes inv: "ginv E s" and fresh: "node_at s a = None" and nz: "a \<noteq> nullptr" and aE: "a \<notin> E"
  shows "ginv E (store s a (plain_node nm 1 [] nullptr)
                  \<lparr>tracker := tracker s\<lparr>active_nodes := insert a (active_nodes (tracker s))\<rparr>\<rparr>)"
    (is "ginv _ ?s1")
  unfolding ginv_iff
proof (intro conjI allI impI ballI)
  fix b show "b \<in> active_nodes (tracker ?s1) \<longleftrightarrow> node_at ?s1 b \<noteq> None"
    using ginv_tracker [OF inv, of b] by auto
next
  show "node_at ?s1 nullptr = None"
    using ginv_null [OF inv] nz by auto
next
  fix b m assume b: "node_at ?s1 b = Some m"
  show "distinct (children m)" using b ginv_distinct [OF inv, of b m]
    by (auto simp: plain_node_def split: if_splits)
  show "length (children m) \<le> unat (refcount m)" using b ginv_count [OF inv, of b m]
    by (auto simp: plain_node_def split: if_splits)
  {
    fix c assume c: "c \<in> set (children m)"
    with b have m0: "node_at s b = Some m" by (auto simp: plain_node_def split: if_splits)
    from ginv_child [OF inv m0 c] obtain cn where cn: "node_at s c = Some cn" "parent cn = b" by auto
    with fresh have "c \<noteq> a" by auto
    with cn show "\<exists>cn. node_at ?s1 c = Some cn \<and> parent cn = b" by auto
  }
  {
    assume bE: "b \<notin> E" and pm: "parent m \<noteq> nullptr"
    with b have m0: "node_at s b = Some m" by (auto simp: plain_node_def split: if_splits)
    from ginv_linked [OF inv m0 bE pm] obtain q where q: "node_at s (parent m) = Some q"
      "b \<in> set (children q)" by auto
    with fresh have "parent m \<noteq> a" by auto
    with q show "\<exists>q. node_at ?s1 (parent m) = Some q \<and> b \<in> set (children q)" by auto
  }
next
  fix e m assume e: "e \<in> E" and m: "node_at ?s1 e = Some m"
  with aE have m0: "node_at s e = Some m" by (auto split: if_splits)
  show "parent m \<noteq> nullptr" using ginv_detached_parent [OF inv e m0] by simp
  fix q qn assume q: "node_at ?s1 q = Some qn"
  show "e \<notin> set (children qn)"
  proof (cases "q = a")
    case True with q show ?thesis by (auto simp: plain_node_def)
  next
    case False
    with q have "node_at s q = Some qn" by simp
    with ginv_detached [OF inv e m0] show ?thesis by simp
  qed
qed

section \<open>Every operation keeps the invariant\<close>

lemma no_wrap_iff: "no_wrap s a \<longleftrightarrow> (\<forall>n. node_at s a = Some n \<longrightarrow> refcount n + 1 \<noteq> 0)"
  by (auto simp: no_wrap_def split: option.splits)

lemma keeps_child_refs_iff:
  "keeps_child_refs s a c \<longleftrightarrow>
     (\<forall>n. node_at s a = Some n \<longrightarrow> c \<le> refcount n \<longrightarrow>
        length (children n) + unat c \<le> unat (refcount n))"
  by (auto simp: keeps_child_refs_def split: option.splits)

lemma distinct_count_list_1: "distinct xs \<Longrightarrow> x \<in> set xs \<Longrightarrow> count_list xs x = 1"
  by (induction xs) auto

lemma tree_tracker_inv_iff:
  "tree_tracker_inv s \<longleftrightarrow>
     (\<forall>a n. node_at s a = Some n \<longrightarrow>
        (\<forall>c \<in> set (children n). \<exists>cn. node_at s c = Some cn \<and> parent cn = a) \<and>
        (parent n \<noteq> nullptr \<longrightarrow>
           (\<exists>p. node_at s (parent n) = Some p \<and> count_list (children p) a = 1))) \<and>
     (\<forall>a. a \<in> active_nodes (tracker s) \<longleftrightarrow> node_at s a \<noteq> None)"
proof -
  have 1: "(case node_at s c of None \<Rightarrow> False | Some cn \<Rightarrow> parent cn = a)
      \<longleftrightarrow> (\<exists>cn. node_at s c = Some cn \<and> parent cn = a)" for c a
    by (auto split: option.splits)
  have 2: "(case node_at s q of None \<Rightarrow> False | Some p \<Rightarrow> count_list (children p) a = 1)
      \<longleftrightarrow> (\<exists>p. node_at s q = Some p \<and> count_list (children p) a = 1)" for q a
    by (auto split: option.splits)
  have 3: "(case node_at s a of None \<Rightarrow> False | Some n \<Rightarrow> P n)
      \<longleftrightarrow> (\<exists>n. node_at s a = Some n \<and> P n)" for a P
    by (auto split: option.splits)
  show ?thesis
    unfolding tree_tracker_inv_def 1 2 3 set_eq_iff Ball_def live_nodes_iff
    by auto
qed

lemma ginv_tree_tracker_inv:
  assumes inv: "ginv {} s"
  shows "tree_tracker_inv s"
  unfolding tree_tracker_inv_iff
proof (intro conjI allI impI ballI)
  fix a show "a \<in> active_nodes (tracker s) \<longleftrightarrow> node_at s a \<noteq> None"
    by (rule ginv_tracker [OF inv])
next
  fix a n c assume "node_at s a = Some n" "c \<in> set (children n)"
  then show "\<exists>cn. node_at s c = Some cn \<and> parent cn = a" by (rule ginv_child [OF inv])
next
  fix a n assume n: "node_at s a = Some n" and "parent n \<noteq> nullptr"
  with ginv_linked [OF inv n] obtain p where p: "node_at s (parent n) = Some p"
    and mem: "a \<in> set (children p)" by auto
  from distinct_count_list_1 [OF ginv_distinct [OF inv p] mem] p
  show "\<exists>p. node_at s (parent n) = Some p \<and> count_list (children p) a = 1" by simp
qed

lemma ginv_empty: "ginv {} empty_fs"
  by (simp add: ginv_def empty_fs_def live_nodes_def)

lemma ginv_Acquire:
  assumes "ginv E s" "no_wrap s a" "Acquire s a = Inr s'"
  shows "ginv E s'"
proof -
  from assms(3) obtain n where n: "node_at s a = Some n"
    and s': "s' = store s a (n\<lparr>refcount := refcount n + 1\<rparr>)"
    by (auto simp: Acquire_def split: option.splits)
  from assms(2) n have "refcount n + 1 \<noteq> 0" by (simp add: no_wrap_iff)
  then have "unat (refcount n + 1) = Suc (unat (refcount n))"
    using unatSuc [of "refcount n"] by (simp add: add.commute)
  with ginv_count [OF assms(1) n] have "length (children n) \<le> unat (refcount (n\<lparr>refcount := refcount n + 1\<rparr>))"
    by simp
  with ginv_store_same_links [OF assms(1) n, of "n\<lparr>refcount := refcount n + 1\<rparr>"] s'
  show ?thesis by simp
qed

lemma ginv_AddToParent:
  assumes inv: "ginv E s" and nw: "no_wrap s np" and add: "AddToParent s a np = Inr s'"
  shows "ginv E s'"
proof -
  from add obtain n where n: "node_at s a = Some n" and pn: "parent n = nullptr"
    and np: "np \<noteq> nullptr"
    by (auto simp: AddToParent_def split: option.splits if_splits)
  let ?n1 = "n\<lparr>parent := np\<rparr>"
  let ?s1 = "store s a ?n1"
  from add n pn np obtain p where p: "node_at ?s1 np = Some p"
    and s': "s' = store ?s1 np (p\<lparr>children := children p @ [a], refcount := refcount p + 1\<rparr>)"
    by (auto simp: AddToParent_def Acquire_def split: option.splits if_splits)
  have aE: "a \<notin> E" using ginv_detached_parent [OF inv _ n] pn by blast
  have inv1: "ginv (insert a E) ?s1" by (rule ginv_set_parent [OF inv n pn np])
  have n1: "node_at ?s1 a = Some ?n1" by simp
  have p1: "node_at ?s1 (parent ?n1) = Some p" using p by simp
  from p n obtain p0 where "node_at s np = Some p0" "refcount p = refcount p0"
    by (auto split: if_splits)
  with nw have "refcount p + 1 \<noteq> 0" by (simp add: no_wrap_iff)
  from ginv_attach [OF inv1 aE n1 p1 this] s' show ?thesis by simp
qed

lemma node_ctor_root:
  "node_ctor s a nullptr nm = Inr s' \<Longrightarrow>
   s' = store s a (plain_node nm 1 [] nullptr)
          \<lparr>tracker := tracker s\<lparr>active_nodes := insert a (active_nodes (tracker s))\<rparr>\<rparr>"
  by (auto simp: node_ctor_def NodeCreated_def kEnableInodeTracking_def Acquire_def plain_node_def
      store_tracker_update split: if_splits)

lemma node_ctor_child:
  "p0 \<noteq> nullptr \<Longrightarrow> node_ctor s a p0 nm = Inr s' \<Longrightarrow>
   AddToParent (store s a (plain_node nm 1 [] nullptr)
          \<lparr>tracker := tracker s\<lparr>active_nodes := insert a (active_nodes (tracker s))\<rparr>\<rparr>) a p0 = Inr s'"
  by (auto simp: node_ctor_def NodeCreated_def kEnableInodeTracking_def Acquire_def plain_node_def
      store_tracker_update split: if_splits)

lemma ginv_node_ctor:
  assumes inv: "ginv {} s" and nz: "a \<noteq> nullptr" and fresh: "node_at s a = None"
    and nw: "no_wrap s p0" and c: "node_ctor s a p0 nm = Inr s'"
  shows "ginv {} s'"
proof -
  let ?s1 = "store s a (plain_node nm 1 [] nullptr)
          \<lparr>tracker := tracker s\<lparr>active_nodes := insert a (active_nodes (tracker s))\<rparr>\<rparr>"
  have inv1: "ginv {} ?s1" by (rule ginv_alloc [OF inv fresh nz]) simp
  show ?thesis
  proof (cases "p0 = nullptr")
    case True
    with c node_ctor_root [of s a nm s'] inv1 show ?thesis by simp
  next
    case False
    have "no_wrap ?s1 p0" using nw by (auto simp: no_wrap_iff plain_node_def)
    from ginv_AddToParent [OF inv1 this node_ctor_child [OF False c]] show ?thesis .
  qed
qed

lemma ginv_Create:
  assumes "ginv {} s" "a \<noteq> nullptr" "node_at s a = None" "no_wrap s p0"
    "Create s a p0 nm = Inr (s', r)"
  shows "ginv {} s'"
proof -
  from assms(5) have "node_ctor s a p0 nm = Inr s'"
    by (auto simp: Create_def split: sum.splits)
  from ginv_node_ctor [OF assms(1-4) this] show ?thesis .
qed

lemma ginv_CreateRoot:
  assumes "ginv {} s" "a \<noteq> nullptr" "node_at s a = None" "CreateRoot s a path = Inr (s', r)"
  shows "ginv {} s'"
proof -
  from assms(4) obtain s1 where c: "node_ctor s a nullptr path = Inr s1"
    and acq: "Acquire s1 a = Inr s'"
    by (auto simp: CreateRoot_def split: sum.splits)
  have "no_wrap s nullptr" using ginv_null [OF assms(1)] by (simp add: no_wrap_iff)
  from ginv_node_ctor [OF assms(1-3) this c] have inv1: "ginv {} s1" .
  from node_ctor_root [OF c] have "no_wrap s1 a" by (simp add: no_wrap_iff plain_node_def)
  from ginv_Acquire [OF inv1 this acq] show ?thesis .
qed

lemma ginv_lookup_loop:
  assumes "ginv E s" "acquire \<longrightarrow> no_wrap s r" "lookup_loop s cs nm acquire = Inr (s', r)"
  shows "ginv E s'"
  using assms
proof (induction cs)
  case Nil
  then show ?case by simp
next
  case (Cons c cs)
  from Cons.prems(3) obtain cn where cn: "node_at s c = Some cn"
    by (auto split: option.splits)
  show ?case
  proof (cases "strcasecmp (c_str nm) (c_str (name cn)) = 0 \<and> \<not> deleted cn")
    case False
    with Cons cn show ?thesis by auto
  next
    case True
    show ?thesis
    proof (cases acquire)
      case False
      with True Cons.prems cn show ?thesis by auto
    next
      case acq: True
      with True Cons.prems(3) cn have "r = c" and "Acquire s c = Inr s'"
        by (auto split: sum.splits)
      with ginv_Acquire [OF Cons.prems(1), of c s'] Cons.prems(2) acq show ?thesis by simp
    qed
  qed
qed

lemma ginv_LookupChildByName:
  assumes "ginv E s" "acquire \<longrightarrow> no_wrap s r" "LookupChildByName s this nm acquire = Inr (s', r)"
  shows "ginv E s'"
proof -
  from assms(3) have "\<exists>n :: node. lookup_loop s (children n) nm acquire = Inr (s', r)"
    by (auto simp: LookupChildByName_def split: option.splits)
  then obtain n :: node where "lookup_loop s (children n) nm acquire = Inr (s', r)" ..
  from ginv_lookup_loop [OF assms(1,2) this] show ?thesis .
qed

lemma ginv_SetDeleted: "ginv E s \<Longrightarrow> SetDeleted s a = Inr s' \<Longrightarrow> ginv E s'"
  by (auto simp: SetDeleted_def split: option.splits
      intro!: ginv_store_same_links dest: ginv_count)

lemma ginv_AddHandle: "ginv E s \<Longrightarrow> AddHandle s a h obj = Inr s' \<Longrightarrow> ginv E s'"
  by (auto simp: AddHandle_def split: option.splits
      intro!: ginv_store_same_links dest: ginv_count)

lemma ginv_DestroyHandle: "ginv E s \<Longrightarrow> DestroyHandle s a h = Inr s' \<Longrightarrow> ginv E s'"
  by (auto simp: DestroyHandle_def split: option.splits if_splits
      intro!: ginv_store_same_links dest: ginv_count)

lemma ginv_AddDirHandle: "ginv E s \<Longrightarrow> AddDirHandle s a h obj = Inr s' \<Longrightarrow> ginv E s'"
  by (auto simp: AddDirHandle_def split: option.splits
      intro!: ginv_store_same_links dest: ginv_count)

lemma ginv_DestroyDirHandle: "ginv E s \<Longrightarrow> DestroyDirHandle s a h = Inr s' \<Longrightarrow> ginv E s'"
  by (auto simp: DestroyDirHandle_def split: option.splits if_splits
      intro!: ginv_store_same_links dest: ginv_count)

lemma ginv_Release:
  assumes "ginv E s" "keeps_child_refs s a c" "Release s a c = Inr (s', b)"
  shows "ginv E s'"
proof -
  from assms(3) obtain n where n: "node_at s a = Some n"
    by (auto simp: Release.simps [of s a c] split: option.splits)
  with assms(2) have "c \<le> refcount n \<longrightarrow> length (children n) + unat c \<le> unat (refcount n)"
    by (simp add: keeps_child_refs_iff)
  with cascade_preserves(1) [of s a c] assms(1,3) n show ?thesis by blast
qed

lemma word_le_no_wrap: "(x :: 32 word) \<le> y \<Longrightarrow> y + 1 \<noteq> 0 \<Longrightarrow> x + 1 \<noteq> 0"
proof
  assume le: "x \<le> y" and y: "y + 1 \<noteq> 0" and x: "x + 1 = 0"
  from x have "x = - 1" by (simp add: eq_neg_iff_add_eq_0)
  with le have "y = - 1" by (simp add: word_order.extremum_unique)
  with y show False by simp
qed

lemma ginv_Rename:
  assumes inv: "ginv {} s" and nw: "no_wrap s np" and rn: "Rename s a nm np = Inr s'"
  shows "ginv {} s'"
proof -
  from rn obtain n where n: "node_at s a = Some n"
    by (auto simp: Rename_def split: option.splits)
  let ?s0 = "store s a (n\<lparr>name := nm\<rparr>)"
  have inv0: "ginv {} ?s0"
    using ginv_count [OF inv n] by (intro ginv_store_same_links [OF inv n]) simp_all
  show ?thesis
  proof (cases "np = parent n")
    case True
    with rn n inv0 show ?thesis by (simp add: Rename_def)
  next
    case False
    with rn n obtain s1 where r: "RemoveFromParent ?s0 a = Inr s1"
      and add: "AddToParent s1 a np = Inr s'"
      by (auto simp: Rename_def split: sum.splits)
    from cascade_preserves(3) [of ?s0 a] inv0 r have inv1: "ginv {} s1" by blast
    have "no_wrap s1 np"
      unfolding no_wrap_iff
    proof (intro allI impI)
      fix m' assume "node_at s1 np = Some m'"
      with cascade_refcount_mono(3) [of ?s0 a] r obtain m where m: "node_at ?s0 np = Some m"
        and le: "refcount m' \<le> refcount m" by blast
      from m n obtain m0 where "node_at s np = Some m0" "refcount m = refcount m0"
        by (auto split: if_splits)
      with nw have "refcount m + 1 \<noteq> 0" by (simp add: no_wrap_iff)
      with le show "refcount m' + 1 \<noteq> 0" by (rule word_le_no_wrap)
    qed
    from ginv_AddToParent [OF inv1 this add] show ?thesis .
  qed
qed

section \<open>No operation reads or writes a deallocated node\<close>

lemma holds_own_ref_iff:
  "holds_own_ref s a \<longleftrightarrow> (\<exists>n. node_at s a = Some n \<and> length (children n) < unat (refcount n))"
  by (auto simp: holds_own_ref_def split: option.splits)

text \<open>
  A node that holds a reference of its own is not destroyed by the releases that its
  children cause, and still holds one afterwards.
\<close>

lemma cascade_keeps_own_ref:
  "\<forall>s' b x. Release s a c = Inr (s', b) \<longrightarrow> holds_own_ref s x \<longrightarrow>
      (x = a \<longrightarrow> (\<forall>n. node_at s a = Some n \<longrightarrow> c \<le> refcount n \<longrightarrow>
                      length (children n) + unat c < unat (refcount n))) \<longrightarrow>
      holds_own_ref s' x"
  "\<forall>s' x. delete_this s1 a1 = Inr s' \<longrightarrow> holds_own_ref s1 x \<longrightarrow> x \<noteq> a1 \<longrightarrow> holds_own_ref s' x"
  "\<forall>s' x. RemoveFromParent s2 a2 = Inr s' \<longrightarrow> holds_own_ref s2 x \<longrightarrow> holds_own_ref s' x"
proof (induction s a c and s1 a1 and s2 a2 rule: Release_delete_this_RemoveFromParent.induct)
  case (1 s this count)
  show ?case
  proof (intro allI impI)
    fix s' b x
    assume rel: "Release s this count = Inr (s', b)" and h: "holds_own_ref s x"
      and side: "x = this \<longrightarrow> (\<forall>n. node_at s this = Some n \<longrightarrow> count \<le> refcount n \<longrightarrow>
                      length (children n) + unat count < unat (refcount n))"
    from rel obtain n where n: "node_at s this = Some n"
      by (auto simp: Release.simps [of s this count] split: option.splits)
    show "holds_own_ref s' x"
    proof (cases "count \<le> refcount n")
      case False
      with rel n h show ?thesis by (simp add: Release.simps)
    next
      case le: True
      let ?s1 = "store s this (n\<lparr>refcount := refcount n - count\<rparr>)"
      have h1: "holds_own_ref ?s1 x"
      proof (cases "x = this")
        case True
        with side n le have "length (children n) + unat count < unat (refcount n)" by simp
        with le have "length (children n) < unat (refcount n - count)" by (simp add: unat_sub)
        with True show ?thesis by (simp add: holds_own_ref_iff)
      next
        case False
        with h show ?thesis by (simp add: holds_own_ref_iff)
      qed
      show ?thesis
      proof (cases "refcount n - count = 0")
        case False
        with rel n le have "s' = ?s1" by (simp add: Release.simps)
        with h1 show ?thesis by simp
      next
        case True
        with rel n le have d: "delete_this ?s1 this = Inr s'"
          by (simp add: Release.simps split: sum.splits)
        have "x \<noteq> this"
        proof
          assume "x = this"
          with h1 True show False by (simp add: holds_own_ref_iff)
        qed
        with "1.IH" [OF n le True] d h1 show ?thesis by blast
      qed
    qed
  qed
next
  case (2 s this)
  show ?case
  proof (intro allI impI)
    fix s' x
    assume d: "delete_this s this = Inr s'" and h: "holds_own_ref s x" and ne: "x \<noteq> this"
    from d obtain s1 n1 where r: "RemoveFromParent s this = Inr s1"
      and s': "s' = free (store s1 this (n1\<lparr>handles := [], dirhandles := []\<rparr>)) this
                 \<lparr>tracker := tracker s1\<lparr>active_nodes := active_nodes (tracker s1) - {this}\<rparr>\<rparr>"
      by (auto simp: delete_this.simps [of s this] NodeDeleted_def kEnableInodeTracking_def
          split: sum.splits option.splits if_splits)
    from "2.IH" r h have "holds_own_ref s1 x" by blast
    with s' ne show "holds_own_ref s' x" by (simp add: holds_own_ref_iff)
  qed
next
  case (3 s this)
  show ?case
  proof (intro allI impI)
    fix s' x
    assume r: "RemoveFromParent s this = Inr s'" and h: "holds_own_ref s x"
    from r obtain n where n: "node_at s this = Some n"
      by (auto simp: RemoveFromParent.simps [of s this] split: option.splits)
    show "holds_own_ref s' x"
    proof (cases "parent n = nullptr")
      case True
      with r n h show ?thesis by (simp add: RemoveFromParent.simps)
    next
      case False
      with r n obtain p where p: "node_at s (parent n) = Some p" and mem: "this \<in> set (children p)"
        by (auto simp: RemoveFromParent.simps [of s this] split: option.splits if_splits)
      let ?p1 = "p\<lparr>children := remove1 this (children p)\<rparr>"
      let ?s1 = "store s (parent n) ?p1"
      from r n False p mem obtain s2 b n2 where rel: "Release ?s1 (parent n) 1 = Inr (s2, b)"
        and n2: "node_at s2 this = Some n2" and s': "s' = store s2 this (n2\<lparr>parent := nullptr\<rparr>)"
        by (auto simp: RemoveFromParent.simps [of s this] split: sum.splits option.splits)
      from mem have pos: "0 < length (children p)" by (cases "children p") auto
      have h1: "holds_own_ref ?s1 x"
        using h p by (auto simp: holds_own_ref_iff length_remove1)
      have side: "x = parent n \<longrightarrow> (\<forall>m. node_at ?s1 (parent n) = Some m \<longrightarrow> 1 \<le> refcount m \<longrightarrow>
                      length (children m) + unat (1 :: 32 word) < unat (refcount m))"
        using h p mem pos by (auto simp: holds_own_ref_iff length_remove1)
      from "3.IH" [OF n False p mem] rel h1 side have h2: "holds_own_ref s2 x" by blast
      with s' n2 show ?thesis by (auto simp: holds_own_ref_iff)
    qed
  qed
qed

lemma undefined_behaviour_iff: "undefined_behaviour r \<longleftrightarrow> (\<exists>a. r = Inl (BadPointer a))"
  by (auto simp: undefined_behaviour_def split: sum.splits error.splits)

lemma undefined_behaviour_simps [simp]:
  "undefined_behaviour (Inl (BadPointer a))"
  "\<not> undefined_behaviour (Inl (Fatal c))"
  "\<not> undefined_behaviour (Inr x)"
  by (simp_all add: undefined_behaviour_def)

lemma undefined_behaviour_Inl: "undefined_behaviour (Inl e) \<longleftrightarrow> (\<exists>a. e = BadPointer a)"
  by (cases e) simp_all

lemma undefined_behaviour_outcome [simp]: "undefined_behaviour (outcome r) = undefined_behaviour r"
  by (auto simp: undefined_behaviour_def outcome_def split: sum.splits error.splits)

lemma outcome_Inr: "outcome r = Inr s' \<longleftrightarrow> (\<exists>x. r = Inr (s', x))"
  by (auto simp: outcome_def split: sum.splits)

lemma parents_allocated_store:
  assumes al: "\<forall>e\<in>E. \<exists>m. node_at s e = Some m \<and> node_at s (parent m) \<noteq> None"
    and n: "node_at s a = Some n" and pa: "parent n' = parent n"
  shows "\<forall>e\<in>E. \<exists>m. node_at (store s a n') e = Some m \<and> node_at (store s a n') (parent m) \<noteq> None"
proof
  fix e assume "e \<in> E"
  with al obtain m where m: "node_at s e = Some m" "node_at s (parent m) \<noteq> None" by blast
  show "\<exists>m. node_at (store s a n') e = Some m \<and> node_at (store s a n') (parent m) \<noteq> None"
  proof (cases "e = a")
    case True
    with m n pa have "node_at (store s a n') e = Some n'" "node_at (store s a n') (parent n') \<noteq> None"
      by auto
    then show ?thesis by blast
  next
    case False
    with m have "node_at (store s a n') e = Some m" "node_at (store s a n') (parent m) \<noteq> None"
      by auto
    then show ?thesis by blast
  qed
qed

text \<open>
  In a state that satisfies the invariant, where the nodes being unlinked and their
  parents are allocated, a release stops at a \<open>CHECK\<close> or returns; the nodes being
  unlinked are still allocated when it returns.
\<close>

lemma cascade_defined:
  "\<forall>E n. ginv E s \<longrightarrow> (\<forall>e\<in>E. \<exists>m. node_at s e = Some m \<and> node_at s (parent m) \<noteq> None) \<longrightarrow>
      node_at s a = Some n \<longrightarrow>
      (c \<le> refcount n \<longrightarrow> length (children n) + unat c \<le> unat (refcount n)) \<longrightarrow>
      \<not> undefined_behaviour (Release s a c) \<and>
      (\<forall>s' b. Release s a c = Inr (s', b) \<longrightarrow> (\<forall>e\<in>E. node_at s' e \<noteq> None))"
  "\<forall>E n. ginv E s1 \<longrightarrow> (\<forall>e\<in>E. \<exists>m. node_at s1 e = Some m \<and> node_at s1 (parent m) \<noteq> None) \<longrightarrow>
      node_at s1 a1 = Some n \<longrightarrow> refcount n = 0 \<longrightarrow>
      \<not> undefined_behaviour (delete_this s1 a1) \<and>
      (\<forall>s'. delete_this s1 a1 = Inr s' \<longrightarrow> a1 \<notin> E \<and> (\<forall>e\<in>E. node_at s' e \<noteq> None))"
  "\<forall>E n. ginv E s2 \<longrightarrow> (\<forall>e\<in>E. \<exists>m. node_at s2 e = Some m \<and> node_at s2 (parent m) \<noteq> None) \<longrightarrow>
      node_at s2 a2 = Some n \<longrightarrow>
      \<not> undefined_behaviour (RemoveFromParent s2 a2) \<and>
      (\<forall>s'. RemoveFromParent s2 a2 = Inr s' \<longrightarrow>
         a2 \<notin> E \<and> (\<forall>e\<in>E. node_at s' e \<noteq> None) \<and> node_at s' a2 \<noteq> None)"
proof (induction s a c and s1 a1 and s2 a2 rule: Release_delete_this_RemoveFromParent.induct)
  case (1 s this count)
  show ?case
  proof (intro allI impI)
    fix E n
    assume inv: "ginv E s"
      and al: "\<forall>e\<in>E. \<exists>m. node_at s e = Some m \<and> node_at s (parent m) \<noteq> None"
      and n: "node_at s this = Some n"
      and side: "count \<le> refcount n \<longrightarrow> length (children n) + unat count \<le> unat (refcount n)"
    show "\<not> undefined_behaviour (Release s this count) \<and>
      (\<forall>s' b. Release s this count = Inr (s', b) \<longrightarrow> (\<forall>e\<in>E. node_at s' e \<noteq> None))"
    proof (cases "count \<le> refcount n")
      case False
      with n al show ?thesis by (auto simp: Release.simps)
    next
      case le: True
      let ?n1 = "n\<lparr>refcount := refcount n - count\<rparr>"
      let ?s1 = "store s this ?n1"
      from le side have "length (children n) \<le> unat (refcount n - count)"
        by (simp add: unat_sub)
      then have inv1: "ginv E ?s1"
        by (intro ginv_store_same_links [OF inv n]) simp_all
      have al1: "\<forall>e\<in>E. \<exists>m. node_at ?s1 e = Some m \<and> node_at ?s1 (parent m) \<noteq> None"
        by (rule parents_allocated_store [OF al n]) simp
      show ?thesis
      proof (cases "refcount n - count = 0")
        case False
        with n le al1 show ?thesis by (auto simp: Release.simps)
      next
        case True
        have eq: "Release s this count =
            (case delete_this ?s1 this of Inl e \<Rightarrow> Inl e | Inr s' \<Rightarrow> Inr (s', True))"
          using n le True by (simp add: Release.simps)
        have n1: "node_at ?s1 this = Some ?n1" by simp
        from True have z: "refcount ?n1 = 0" by simp
        from "1.IH" [OF n le True] inv1 al1 n1 z
        have d: "\<not> undefined_behaviour (delete_this ?s1 this)"
          and post: "\<forall>s'. delete_this ?s1 this = Inr s' \<longrightarrow> (\<forall>e\<in>E. node_at s' e \<noteq> None)"
          by blast+
        from d post show ?thesis unfolding eq
          by (cases "delete_this ?s1 this") (auto simp: undefined_behaviour_Inl)
      qed
    qed
  qed
next
  case (2 s this)
  show ?case
  proof (intro allI impI)
    fix E n
    assume inv: "ginv E s"
      and al: "\<forall>e\<in>E. \<exists>m. node_at s e = Some m \<and> node_at s (parent m) \<noteq> None"
      and n: "node_at s this = Some n" and z: "refcount n = 0"
    from "2.IH" inv al n
    have r: "\<not> undefined_behaviour (RemoveFromParent s this)"
      and post: "\<forall>s'. RemoveFromParent s this = Inr s' \<longrightarrow>
         this \<notin> E \<and> (\<forall>e\<in>E. node_at s' e \<noteq> None) \<and> node_at s' this \<noteq> None"
      by blast+
    show "\<not> undefined_behaviour (delete_this s this) \<and>
      (\<forall>s'. delete_this s this = Inr s' \<longrightarrow> this \<notin> E \<and> (\<forall>e\<in>E. node_at s' e \<noteq> None))"
    proof (cases "RemoveFromParent s this")
      case (Inl e)
      with r show ?thesis by (simp add: delete_this.simps undefined_behaviour_Inl)
    next
      case (Inr s1)
      with post have notE: "this \<notin> E" and al1: "\<forall>e\<in>E. node_at s1 e \<noteq> None"
        and "node_at s1 this \<noteq> None" by simp_all
      then obtain n1 where n1: "node_at s1 this = Some n1" by blast
      from notE al1 have "\<forall>e\<in>E. node_at (free (store s1 this m) this\<lparr>tracker := t\<rparr>) e \<noteq> None" for m t
        by auto
      with Inr n1 notE show ?thesis
        by (auto simp: delete_this.simps NodeDeleted_def kEnableInodeTracking_def)
    qed
  qed
next
  case (3 s this)
  show ?case
  proof (intro allI impI)
    fix E n
    assume inv: "ginv E s"
      and al: "\<forall>e\<in>E. \<exists>m. node_at s e = Some m \<and> node_at s (parent m) \<noteq> None"
      and n: "node_at s this = Some n"
    from al have alive: "\<forall>e\<in>E. node_at s e \<noteq> None" by fastforce
    show "\<not> undefined_behaviour (RemoveFromParent s this) \<and>
      (\<forall>s'. RemoveFromParent s this = Inr s' \<longrightarrow>
         this \<notin> E \<and> (\<forall>e\<in>E. node_at s' e \<noteq> None) \<and> node_at s' this \<noteq> None)"
    proof (cases "parent n = nullptr")
      case True
      from ginv_detached_parent [OF inv _ n] True have "this \<notin> E" by blast
      with True n alive show ?thesis by (simp add: RemoveFromParent.simps)
    next
      case False
      show ?thesis
      proof (cases "this \<in> E")
        case True
        with al n obtain p where p: "node_at s (parent n) = Some p" by fastforce
        from ginv_detached [OF inv True n p] have "this \<notin> set (children p)" .
        with n False p have "RemoveFromParent s this = Inl (Fatal RemoveFromParent_found)"
          by (simp add: RemoveFromParent.simps)
        then show ?thesis by simp
      next
        case notE: False
        from ginv_linked [OF inv n notE False] obtain p where p: "node_at s (parent n) = Some p"
          and mem: "this \<in> set (children p)" by blast
        let ?p1 = "p\<lparr>children := remove1 this (children p)\<rparr>"
        let ?s1 = "store s (parent n) ?p1"
        have inv1: "ginv (insert this E) ?s1" by (rule ginv_erase [OF inv n False p mem])
        have "\<forall>e\<in>insert this E. \<exists>m. node_at s e = Some m \<and> node_at s (parent m) \<noteq> None"
          using al n p by auto
        then have al1: "\<forall>e\<in>insert this E. \<exists>m. node_at ?s1 e = Some m \<and> node_at ?s1 (parent m) \<noteq> None"
          by (rule parents_allocated_store [OF _ p]) simp
        have p1: "node_at ?s1 (parent n) = Some ?p1" by simp
        from mem have "0 < length (children p)" by (cases "children p") auto
        with mem ginv_count [OF inv p]
        have side: "1 \<le> refcount ?p1 \<longrightarrow> length (children ?p1) + unat (1 :: 32 word) \<le> unat (refcount ?p1)"
          by (simp add: length_remove1)
        from "3.IH" [OF n False p mem] inv1 al1 p1 side
        have rel: "\<not> undefined_behaviour (Release ?s1 (parent n) 1)"
          and post: "\<forall>s' b. Release ?s1 (parent n) 1 = Inr (s', b) \<longrightarrow>
              (\<forall>e\<in>insert this E. node_at s' e \<noteq> None)"
          by blast+
        have eq: "RemoveFromParent s this =
            (case Release ?s1 (parent n) 1 of
               Inl e \<Rightarrow> Inl e
             | Inr (s', released) \<Rightarrow>
                 (case node_at s' this of
                    None \<Rightarrow> Inl (BadPointer this)
                  | Some n' \<Rightarrow> Inr (store s' this (n'\<lparr>parent := nullptr\<rparr>))))"
          using n False p mem by (simp add: RemoveFromParent.simps)
        show ?thesis
        proof (cases "Release ?s1 (parent n) 1")
          case (Inl e)
          with rel eq show ?thesis by (simp add: undefined_behaviour_Inl)
        next
          case (Inr res)
          obtain s2 b where res: "res = (s2, b)" by (cases res)
          with Inr post have al2: "\<forall>e\<in>insert this E. node_at s2 e \<noteq> None" by simp
          then obtain n2 where n2: "node_at s2 this = Some n2" by auto
          from eq Inr res n2
          have "RemoveFromParent s this = Inr (store s2 this (n2\<lparr>parent := nullptr\<rparr>))" by simp
          with al2 notE show ?thesis by auto
        qed
      qed
    qed
  qed
qed

lemma outcome_InrD: "Inr s' = outcome r \<Longrightarrow> \<exists>x. r = Inr (s', x)"
  by (auto simp: outcome_def split: sum.splits)

lemma Create_defined:
  assumes "node_at s this = None" "parent0 = nullptr \<or> node_at s parent0 \<noteq> None"
  shows "\<not> undefined_behaviour (Create s this parent0 nm)"
proof (cases "parent0 = nullptr")
  case True
  then show ?thesis
    by (simp add: Create_def node_ctor_def NodeCreated_def kEnableInodeTracking_def Acquire_def)
next
  case False
  with assms obtain p where "node_at s parent0 = Some p" by auto
  with False assms(1) show ?thesis
    by (auto simp: Create_def node_ctor_def NodeCreated_def kEnableInodeTracking_def Acquire_def
        AddToParent_def)
qed

lemma CreateRoot_defined: "\<not> undefined_behaviour (CreateRoot s this path)"
  by (simp add: CreateRoot_def node_ctor_def NodeCreated_def kEnableInodeTracking_def Acquire_def)

lemma lookup_loop_defined:
  "\<forall>c \<in> set cs. node_at s c \<noteq> None \<Longrightarrow> \<not> undefined_behaviour (lookup_loop s cs nm acquire)"
  by (induction cs) (auto simp: Acquire_def split: if_splits)

lemma LookupChildByName_defined:
  assumes inv: "ginv E s" and n: "node_at s this \<noteq> None"
  shows "\<not> undefined_behaviour (LookupChildByName s this nm acquire)"
proof -
  from n obtain m where m: "node_at s this = Some m" by blast
  from ginv_child [OF inv m] have "\<forall>c \<in> set (children m). node_at s c \<noteq> None" by fastforce
  from lookup_loop_defined [OF this] m show ?thesis by (simp add: LookupChildByName_def)
qed

lemma Release_defined:
  assumes inv: "ginv {} s" and n: "node_at s this \<noteq> None" and k: "keeps_child_refs s this count"
  shows "\<not> undefined_behaviour (Release s this count)"
proof -
  from n obtain m where m: "node_at s this = Some m" by blast
  with k have "count \<le> refcount m \<longrightarrow> length (children m) + unat count \<le> unat (refcount m)"
    by (simp add: keeps_child_refs_iff)
  with cascade_defined(1) [of s this count] inv m show ?thesis by blast
qed

lemma AddToParent_defined:
  "node_at s this \<noteq> None \<Longrightarrow> node_at s np \<noteq> None \<Longrightarrow> \<not> undefined_behaviour (AddToParent s this np)"
  by (auto simp: AddToParent_def Acquire_def split: if_splits)

lemma Rename_defined:
  assumes inv: "ginv {} s" and n: "node_at s this = Some n"
    and np: "np = parent n \<or> holds_own_ref s np"
  shows "\<not> undefined_behaviour (Rename s this nm np)"
proof (cases "np = parent n")
  case True
  with n show ?thesis by (simp add: Rename_def)
next
  case False
  with np have h: "holds_own_ref s np" by simp
  let ?s0 = "store s this (n\<lparr>name := nm\<rparr>)"
  have inv0: "ginv {} ?s0"
    using ginv_count [OF inv n] by (intro ginv_store_same_links [OF inv n]) simp_all
  have n0: "node_at ?s0 this = Some (n\<lparr>name := nm\<rparr>)" by simp
  from h n have h0: "holds_own_ref ?s0 np" by (auto simp: holds_own_ref_iff)
  from cascade_defined(3) [of ?s0 this] inv0 n0
  have r: "\<not> undefined_behaviour (RemoveFromParent ?s0 this)"
    and post: "\<forall>s'. RemoveFromParent ?s0 this = Inr s' \<longrightarrow> node_at s' this \<noteq> None"
    by auto
  have eq: "Rename s this nm np =
      (case RemoveFromParent ?s0 this of Inl e \<Rightarrow> Inl e | Inr s1 \<Rightarrow> AddToParent s1 this np)"
    using n False by (simp add: Rename_def)
  show ?thesis
  proof (cases "RemoveFromParent ?s0 this")
    case (Inl e)
    with r eq show ?thesis by (simp add: undefined_behaviour_Inl)
  next
    case (Inr s1)
    with post have a: "node_at s1 this \<noteq> None" by simp
    from cascade_keeps_own_ref(3) [of ?s0 this] Inr h0 have "holds_own_ref s1 np" by blast
    then have "node_at s1 np \<noteq> None" by (auto simp: holds_own_ref_iff)
    from AddToParent_defined [OF a this] eq Inr show ?thesis by simp
  qed
qed

lemma step_defined:
  assumes inv: "ginv {} s" and st: "step s r"
  shows "\<not> undefined_behaviour r"
  using st
proof cases
  case (by_Create this parent0 nm)
  with Create_defined show ?thesis by simp
next
  case (by_CreateRoot this path)
  with CreateRoot_defined show ?thesis by simp
next
  case (by_LookupChildByName this acquire nm)
  with LookupChildByName_defined [OF inv] show ?thesis by simp
next
  case (by_SetDeleted this)
  then show ?thesis by (auto simp: SetDeleted_def)
next
  case (by_Rename this n new_parent nm)
  with Rename_defined [OF inv] show ?thesis by blast
next
  case (by_Release this count)
  with Release_defined [OF inv] show ?thesis by simp
next
  case (by_AddHandle this h obj)
  then show ?thesis by (auto simp: AddHandle_def)
next
  case (by_DestroyHandle this h)
  then show ?thesis by (auto simp: DestroyHandle_def split: if_splits)
next
  case (by_AddDirHandle this dh dobj)
  then show ?thesis by (auto simp: AddDirHandle_def)
next
  case (by_DestroyDirHandle this dh)
  then show ?thesis by (auto simp: DestroyDirHandle_def split: if_splits)
qed

lemma step_ginv:
  assumes inv: "ginv {} s" and st: "step s (Inr s')"
  shows "ginv {} s'"
  using st
proof cases
  case (by_Create this parent0 nm)
  then obtain x where "Create s this parent0 nm = Inr (s', x)" by (auto dest: outcome_InrD)
  with by_Create ginv_Create [OF inv] show ?thesis by blast
next
  case (by_CreateRoot this path)
  then obtain x where "CreateRoot s this path = Inr (s', x)" by (auto dest: outcome_InrD)
  with by_CreateRoot ginv_CreateRoot [OF inv] show ?thesis by blast
next
  case (by_LookupChildByName this acquire nm)
  then obtain x where l: "LookupChildByName s this nm acquire = Inr (s', x)"
    by (auto dest: outcome_InrD)
  with by_LookupChildByName have "acquire \<longrightarrow> no_wrap s x" by blast
  from ginv_LookupChildByName [OF inv this l] show ?thesis .
next
  case (by_SetDeleted this)
  with ginv_SetDeleted [OF inv] show ?thesis by simp
next
  case (by_Rename this n new_parent nm)
  show ?thesis
  proof (cases "new_parent = parent n")
    case True
    with by_Rename have "s' = store s this (n\<lparr>name := nm\<rparr>)" by (simp add: Rename_def)
    moreover have "ginv {} (store s this (n\<lparr>name := nm\<rparr>))"
      using ginv_count [OF inv by_Rename(2)]
      by (intro ginv_store_same_links [OF inv by_Rename(2)]) simp_all
    ultimately show ?thesis by simp
  next
    case False
    with by_Rename have "no_wrap s new_parent" by simp
    from ginv_Rename [OF inv this] by_Rename(1) show ?thesis by simp
  qed
next
  case (by_Release this count)
  then obtain x where "Release s this count = Inr (s', x)" by (auto dest: outcome_InrD)
  with by_Release ginv_Release [OF inv] show ?thesis by blast
next
  case (by_AddHandle this h obj)
  with ginv_AddHandle [OF inv] show ?thesis by simp
next
  case (by_DestroyHandle this h)
  with ginv_DestroyHandle [OF inv] show ?thesis by simp
next
  case (by_AddDirHandle this dh dobj)
  with ginv_AddDirHandle [OF inv] show ?thesis by simp
next
  case (by_DestroyDirHandle this dh)
  with ginv_DestroyDirHandle [OF inv] show ?thesis by simp
qed

lemma reachable_ginv: "reachable s \<Longrightarrow> ginv {} s"
  by (induction rule: reachable.induct) (auto intro: ginv_empty step_ginv)

section \<open>The identifier mapping\<close>

lemma Release_True_untracked:
  "Release s n c = Inr (s', True) \<Longrightarrow> n \<notin> active_nodes (tracker s')"
  by (auto simp: Release.simps [of s n c] delete_this.simps NodeDeleted_def kEnableInodeTracking_def
      split: option.splits if_splits sum.splits)

lemma Release_True_freed:
  "Release s n c = Inr (s', True) \<Longrightarrow> node_at s' n = None"
  by (auto simp: Release.simps [of s n c] delete_this.simps NodeDeleted_def kEnableInodeTracking_def
      split: option.splits if_splits sum.splits)

text \<open>
  Claim C1. For a node \<open>n\<close> that is registered in the tracker, \<open>FromInode (ToInode n)\<close>
  passes the check of \<open>CheckTracked\<close> and returns \<open>n\<close>. For an identifier that is not
  registered the check fails and \<open>FromInode\<close> does not return; this is the case for
  every node that a \<open>Release\<close> has just destroyed.
\<close>

theorem FromInode_ToInode:
  "(n \<in> active_nodes t \<longrightarrow> FromInode (ToInode n) t = Inr n) \<and>
   (n \<notin> active_nodes t \<longrightarrow> FromInode (ToInode n) t = Inl (Fatal CheckTracked_active)) \<and>
   (Release s n c = Inr (s', True) \<longrightarrow>
      FromInode (ToInode n) (tracker s') = Inl (Fatal CheckTracked_active))"
  using Release_True_untracked [of s n c s']
  by (simp add: FromInode_def ToInode_def CheckTracked_def kEnableInodeTracking_def)

theorem FromInode_ToInode_witness:
  "FromInode (ToInode 1) \<lparr>active_nodes = {1}\<rparr> = Inr 1 \<and>
   FromInode (ToInode 2) \<lparr>active_nodes = {1}\<rparr> = Inl (Fatal CheckTracked_active) \<and>
   Release (fs_with [(1, plain_node ''/'' 1 [] nullptr)]) 1 1 = Inr (empty_fs, True) \<and>
   FromInode (ToInode 1) (tracker empty_fs) = Inl (Fatal CheckTracked_active)"
proof -
  have r: "Release (fs_with [(1, plain_node ''/'' 1 [] nullptr)]) 1 1 = Inr (empty_fs, True)"
    by (simp add: eval_simps)
  from FromInode_ToInode [of 1 "\<lparr>active_nodes = {1}\<rparr>"
      "fs_with [(1, plain_node ''/'' 1 [] nullptr)]" 1 empty_fs]
    FromInode_ToInode [of 2 "\<lparr>active_nodes = {1}\<rparr>"] r
  show ?thesis by simp
qed

section \<open>Release\<close>

lemma Release_last:
  assumes n: "node_at s n = Some nd" and c: "refcount nd = c" and inv: "sinv {} s"
  shows "\<exists>s'. Release s n c = Inr (s', True)"
proof -
  from cascade_succeeds(1) [of s n c] inv n obtain s' b where r: "Release s n c = Inr (s', b)"
    by auto
  with n c have "b = True"
    by (auto simp: Release.simps [of s n c] split: sum.splits)
  with r show ?thesis by blast
qed

text \<open>
  Claim C2. For a node \<open>n\<close> with reference count \<open>refcount nd\<close> and a count \<open>c\<close>:
  if the count exceeds the reference count, \<open>Release\<close> returns false and the state is the
  one before the call, so the reference count, the deleted flag, the parent link, the
  children and the tracker are unchanged and the node is not destroyed. Otherwise \<open>c\<close> is
  subtracted; when the result is not 0 the call returns false and only the count of \<open>n\<close>
  has changed; when the result is 0 the node is destroyed (deallocated and unregistered) and
  the call returns true. The destruction runs through in every state in which the
  allocated nodes are tracked and linked to their parents.
\<close>

theorem Release_cases:
  assumes n: "node_at s n = Some nd"
  shows "(refcount nd < c \<longrightarrow> Release s n c = Inr (s, False)) \<and>
         (c \<le> refcount nd \<and> refcount nd \<noteq> c \<longrightarrow>
            Release s n c = Inr (store s n (nd\<lparr>refcount := refcount nd - c\<rparr>), False)) \<and>
         (refcount nd = c \<and> sinv {} s \<longrightarrow>
            (\<exists>s'. Release s n c = Inr (s', True) \<and> node_at s' n = None \<and>
                  n \<notin> active_nodes (tracker s')))"
proof (intro conjI impI)
  assume "refcount nd < c"
  then have "\<not> c \<le> refcount nd" by simp
  with n show "Release s n c = Inr (s, False)" by (simp add: Release.simps)
next
  assume "c \<le> refcount nd \<and> refcount nd \<noteq> c"
  with n show "Release s n c = Inr (store s n (nd\<lparr>refcount := refcount nd - c\<rparr>), False)"
    by (simp add: Release.simps)
next
  assume "refcount nd = c \<and> sinv {} s"
  with Release_last [OF n] obtain s' where "Release s n c = Inr (s', True)" by blast
  with Release_True_freed [of s n c s'] Release_True_untracked [of s n c s']
  show "\<exists>s'. Release s n c = Inr (s', True) \<and> node_at s' n = None \<and>
                  n \<notin> active_nodes (tracker s')" by blast
qed

theorem Release_cases_witness:
  "node_at (fs_with [(1, plain_node ''/'' 3 [2] nullptr), (2, plain_node ''a'' 1 [] 1)]) 1
     = Some (plain_node ''/'' 3 [2] nullptr) \<and>
   node_at (fs_with [(1, plain_node ''/'' 3 [2] nullptr), (2, plain_node ''a'' 1 [] 1)]) 2
     = Some (plain_node ''a'' 1 [] 1) \<and>
   sinv {} (fs_with [(1, plain_node ''/'' 3 [2] nullptr), (2, plain_node ''a'' 1 [] 1)]) \<and>
   Release (fs_with [(1, plain_node ''/'' 3 [2] nullptr), (2, plain_node ''a'' 1 [] 1)]) 1 5
     = Inr (fs_with [(1, plain_node ''/'' 3 [2] nullptr), (2, plain_node ''a'' 1 [] 1)], False) \<and>
   Release (fs_with [(1, plain_node ''/'' 3 [2] nullptr), (2, plain_node ''a'' 1 [] 1)]) 1 1
     = Inr (fs_with [(1, plain_node ''/'' 2 [2] nullptr), (2, plain_node ''a'' 1 [] 1)], False) \<and>
   Release (fs_with [(1, plain_node ''/'' 3 [2] nullptr), (2, plain_node ''a'' 1 [] 1)]) 2 1
     = Inr (fs_with [(1, plain_node ''/'' 2 [] nullptr)], True)"
proof -
  let ?s = "fs_with [(1, plain_node ''/'' 3 [2] nullptr), (2, plain_node ''a'' 1 [] 1)]"
  have h1: "node_at ?s 1 = Some (plain_node ''/'' 3 [2] nullptr)" by (simp add: eval_simps)
  have h2: "node_at ?s 2 = Some (plain_node ''a'' 1 [] 1)" by (simp add: eval_simps)
  have h3: "sinv {} ?s" by (simp add: inv_eval eval_simps)
  from Release_cases [OF h1, of 5] have a: "Release ?s 1 5 = Inr (?s, False)"
    by (simp add: plain_node_def)
  from Release_cases [OF h1, of 1]
  have b: "Release ?s 1 1 = Inr (fs_with [(1, plain_node ''/'' 2 [2] nullptr), (2, plain_node ''a'' 1 [] 1)], False)"
    by (simp add: eval_simps)
  from Release_cases [OF h2, of 1] h3 obtain s' where "Release ?s 2 1 = Inr (s', True)"
    by (auto simp: plain_node_def)
  moreover have "Release ?s 2 1 = Inr (fs_with [(1, plain_node ''/'' 2 [] nullptr)], True)"
    by (simp add: eval_simps)
  ultimately show ?thesis using h1 h2 h3 a b by simp
qed

section \<open>Creation under a parent\<close>

text \<open>
  Claim C3. For an allocated parent \<open>p\<close> and a fresh address, \<open>Create\<close> returns the new
  node: its reference count is 1, it is not marked deleted, it is registered in the
  tracker, its parent pointer is \<open>p\<close>, it is appended to the children of \<open>p\<close>, and the
  reference count of \<open>p\<close> is incremented by one (the \<^verbatim>\<open>uint32_t\<close> increment). Name,
  parent and deleted flag of \<open>p\<close>, its other children and all other nodes are unchanged.
\<close>

theorem Create_child:
  assumes p: "node_at s p = Some pn" and pz: "p \<noteq> nullptr"
    and fresh: "node_at s this = None" and untracked: "this \<notin> active_nodes (tracker s)"
  shows "\<exists>s'. Create s this p nm = Inr (s', this) \<and>
           node_at s' this = Some (plain_node nm 1 [] p) \<and>
           active_nodes (tracker s') = insert this (active_nodes (tracker s)) \<and>
           node_at s' p = Some (pn\<lparr>children := children pn @ [this], refcount := refcount pn + 1\<rparr>) \<and>
           (\<forall>x. x \<noteq> this \<longrightarrow> x \<noteq> p \<longrightarrow> node_at s' x = node_at s x)"
proof -
  from p fresh have ne: "p \<noteq> this" by auto
  with assms show ?thesis
    by (simp add: Create_def node_ctor_def NodeCreated_def kEnableInodeTracking_def Acquire_def
        AddToParent_def plain_node_def store_tracker_update)
qed

theorem Create_child_witness:
  "node_at (fs_with [(1, plain_node ''/'' 2 [] nullptr)]) 1 = Some (plain_node ''/'' 2 [] nullptr) \<and>
   (1 :: addr) \<noteq> nullptr \<and>
   node_at (fs_with [(1, plain_node ''/'' 2 [] nullptr)]) 2 = None \<and>
   2 \<notin> active_nodes (tracker (fs_with [(1, plain_node ''/'' 2 [] nullptr)])) \<and>
   Create (fs_with [(1, plain_node ''/'' 2 [] nullptr)]) 2 1 ''a''
     = Inr (fs_with [(1, plain_node ''/'' 3 [2] nullptr), (2, plain_node ''a'' 1 [] 1)], 2)"
proof -
  let ?s = "fs_with [(1, plain_node ''/'' 2 [] nullptr)]"
  have h1: "node_at ?s 1 = Some (plain_node ''/'' 2 [] nullptr)" by (simp add: eval_simps)
  have h2: "(1 :: addr) \<noteq> nullptr" by simp
  have h3: "node_at ?s 2 = None" by (simp add: eval_simps)
  have h4: "2 \<notin> active_nodes (tracker ?s)" by (simp add: eval_simps)
  from Create_child [OF h1 h2 h3 h4, of "''a''"] obtain s' where
    "Create ?s 2 1 ''a'' = Inr (s', 2)" by blast
  moreover have "Create ?s 2 1 ''a''
     = Inr (fs_with [(1, plain_node ''/'' 3 [2] nullptr), (2, plain_node ''a'' 1 [] 1)], 2)"
    by (simp add: eval_simps)
  ultimately show ?thesis using h1 h2 h3 h4 by simp
qed

section \<open>Creation of the root\<close>

text \<open>
  Claim C4. \<open>CreateRoot\<close> returns a node without parent whose reference count is 2: one
  reference of the constructor and the extra one. A \<open>Release\<close> of one reference therefore
  leaves it allocated with count 1 and returns false.
\<close>

theorem CreateRoot_refcount:
  assumes "this \<notin> active_nodes (tracker s)"
  shows "CreateRoot s this path =
           Inr (store s this (plain_node path 2 [] nullptr)
                  \<lparr>tracker := tracker s\<lparr>active_nodes := insert this (active_nodes (tracker s))\<rparr>\<rparr>,
                this) \<and>
         Release (store s this (plain_node path 2 [] nullptr)
                  \<lparr>tracker := tracker s\<lparr>active_nodes := insert this (active_nodes (tracker s))\<rparr>\<rparr>)
                 this 1 =
           Inr (store s this (plain_node path 1 [] nullptr)
                  \<lparr>tracker := tracker s\<lparr>active_nodes := insert this (active_nodes (tracker s))\<rparr>\<rparr>,
                False)"
  using assms
  by (simp add: CreateRoot_def node_ctor_def NodeCreated_def kEnableInodeTracking_def Acquire_def
      plain_node_def Release.simps store_tracker_update)

theorem CreateRoot_refcount_witness:
  "1 \<notin> active_nodes (tracker empty_fs) \<and>
   CreateRoot empty_fs 1 ''/'' = Inr (fs_with [(1, plain_node ''/'' 2 [] nullptr)], 1) \<and>
   Release (fs_with [(1, plain_node ''/'' 2 [] nullptr)]) 1 1
     = Inr (fs_with [(1, plain_node ''/'' 1 [] nullptr)], False)"
proof -
  have h: "1 \<notin> active_nodes (tracker empty_fs)" by (simp add: empty_fs_def)
  from CreateRoot_refcount [OF h, of "''/''"] h show ?thesis
    by (simp add: store_def fs_with_def empty_fs_def)
qed

section \<open>Rename to another directory\<close>

text \<open>
  Claim C5, as the code has it. Let \<open>n\<close> be a node whose parent lists it once and holds at
  least one reference besides the one of \<open>n\<close> (its count is greater than 1), and let the
  new parent be an allocated node other than \<open>n\<close> and other than the old parent. After
  \<open>Rename\<close> the node has the new name and the new parent pointer and its own count is
  unchanged; the old parent no longer lists it and has one reference less; the new parent
  lists it and has one reference more (the \<^verbatim>\<open>uint32_t\<close> increment); nothing else changes.
\<close>

theorem Rename_new_parent:
  assumes n: "node_at s n = Some nd"
    and op: "node_at s (parent nd) = Some on" and opz: "parent nd \<noteq> nullptr"
    and mem: "n \<in> set (children on)" and dist: "distinct (children on)"
    and many: "1 < refcount on"
    and np: "node_at s np = Some nn" and npz: "np \<noteq> nullptr"
    and ne1: "np \<noteq> parent nd" and ne2: "np \<noteq> n" and ne3: "parent nd \<noteq> n"
  shows "\<exists>s'. Rename s n nm np = Inr s' \<and>
           node_at s' n = Some (nd\<lparr>name := nm, parent := np\<rparr>) \<and>
           node_at s' (parent nd) =
             Some (on\<lparr>children := remove1 n (children on), refcount := refcount on - 1\<rparr>) \<and>
           n \<notin> set (remove1 n (children on)) \<and>
           node_at s' np =
             Some (nn\<lparr>children := children nn @ [n], refcount := refcount nn + 1\<rparr>) \<and>
           (\<forall>x. x \<noteq> n \<longrightarrow> x \<noteq> parent nd \<longrightarrow> x \<noteq> np \<longrightarrow> node_at s' x = node_at s x) \<and>
           tracker s' = tracker s"
proof -
  from many have r: "1 \<le> refcount on" "refcount on - 1 \<noteq> 0" by auto
  let ?s0 = "store s n (nd\<lparr>name := nm\<rparr>)"
  let ?s1 = "store ?s0 (parent nd) (on\<lparr>children := remove1 n (children on)\<rparr>)"
  let ?s2 = "store ?s1 (parent nd)
               (on\<lparr>children := remove1 n (children on), refcount := refcount on - 1\<rparr>)"
  let ?s3 = "store ?s2 n (nd\<lparr>name := nm, parent := nullptr\<rparr>)"
  have rel: "Release ?s1 (parent nd) 1 = Inr (?s2, False)"
    using r by (simp add: Release.simps [of ?s1])
  have rfp: "RemoveFromParent ?s0 n = Inr ?s3"
    using op opz mem ne3 rel by (simp add: RemoveFromParent.simps [of ?s0])
  have "AddToParent ?s3 n np =
      Inr (store (store ?s3 n (nd\<lparr>name := nm, parent := np\<rparr>)) np
             (nn\<lparr>children := children nn @ [n], refcount := refcount nn + 1\<rparr>))"
    using np npz ne1 ne2 by (simp add: AddToParent_def Acquire_def)
  with rfp n ne1 have "Rename s n nm np =
      Inr (store (store ?s3 n (nd\<lparr>name := nm, parent := np\<rparr>)) np
             (nn\<lparr>children := children nn @ [n], refcount := refcount nn + 1\<rparr>))"
    by (simp add: Rename_def)
  moreover from dist have "n \<notin> set (remove1 n (children on))" by simp
  ultimately show ?thesis using ne1 ne2 ne3 by simp
qed

theorem Rename_new_parent_witness:
  "Rename (fs_with [(1, plain_node ''/'' 4 [2, 3] nullptr), (2, plain_node ''a'' 2 [4] 1),
                    (3, plain_node ''b'' 1 [] 1), (4, plain_node ''f'' 1 [] 2)]) 4 ''g'' 3
     = Inr (fs_with [(1, plain_node ''/'' 4 [2, 3] nullptr), (2, plain_node ''a'' 1 [] 1),
                     (3, plain_node ''b'' 2 [4] 1), (4, plain_node ''g'' 1 [] 3)])"
proof -
  let ?s = "fs_with [(1, plain_node ''/'' 4 [2, 3] nullptr), (2, plain_node ''a'' 2 [4] 1),
                    (3, plain_node ''b'' 1 [] 1), (4, plain_node ''f'' 1 [] 2)]"
  have h1: "node_at ?s 4 = Some (plain_node ''f'' 1 [] 2)" by (simp add: eval_simps)
  have h2: "node_at ?s (parent (plain_node ''f'' 1 [] 2)) = Some (plain_node ''a'' 2 [4] 1)"
    by (simp add: eval_simps)
  have h3: "parent (plain_node ''f'' 1 [] 2) \<noteq> nullptr" by (simp add: plain_node_def)
  have h4: "4 \<in> set (children (plain_node ''a'' 2 [4] 1))" by (simp add: plain_node_def)
  have h5: "distinct (children (plain_node ''a'' 2 [4] 1))" by (simp add: plain_node_def)
  have h6: "1 < refcount (plain_node ''a'' 2 [4] 1)" by (simp add: plain_node_def)
  have h7: "node_at ?s 3 = Some (plain_node ''b'' 1 [] 1)" by (simp add: eval_simps)
  have h8: "(3 :: addr) \<noteq> nullptr" by simp
  have h9: "3 \<noteq> parent (plain_node ''f'' 1 [] 2)" by (simp add: plain_node_def)
  have h10: "(3 :: addr) \<noteq> 4" by simp
  have h11: "parent (plain_node ''f'' 1 [] 2) \<noteq> 4" by (simp add: plain_node_def)
  from Rename_new_parent [OF h1 h2 h3 h4 h5 h6 h7 h8 h9 h10 h11, of "''g''"]
  obtain s' where "Rename ?s 4 ''g'' 3 = Inr s'" by blast
  moreover have "Rename ?s 4 ''g'' 3
     = Inr (fs_with [(1, plain_node ''/'' 4 [2, 3] nullptr), (2, plain_node ''a'' 1 [] 1),
                     (3, plain_node ''b'' 2 [4] 1), (4, plain_node ''g'' 1 [] 3)])"
    by (simp add: eval_simps Rename_def)
  ultimately show ?thesis by simp
qed

text \<open>
  Without the condition on the old parent the statement fails. The state below is built by
  the public operations: a root with the directories \<open>a\<close> and \<open>b\<close>, a file \<open>f\<close> in \<open>a\<close>,
  and one reference of \<open>a\<close> released, so that only its child keeps \<open>a\<close> alive. Renaming
  \<open>f\<close> into \<open>b\<close> releases that last reference: \<open>a\<close> is destroyed, and there is no old
  parent left whose count could be one less.
\<close>

theorem Rename_last_child_counterexample:
  "CreateRoot empty_fs 1 ''/'' = Inr (fs_with [(1, plain_node ''/'' 2 [] nullptr)], 1) \<and>
   Create (fs_with [(1, plain_node ''/'' 2 [] nullptr)]) 2 1 ''a''
     = Inr (fs_with [(1, plain_node ''/'' 3 [2] nullptr), (2, plain_node ''a'' 1 [] 1)], 2) \<and>
   Create (fs_with [(1, plain_node ''/'' 3 [2] nullptr), (2, plain_node ''a'' 1 [] 1)]) 3 1 ''b''
     = Inr (fs_with [(1, plain_node ''/'' 4 [2, 3] nullptr), (2, plain_node ''a'' 1 [] 1),
                     (3, plain_node ''b'' 1 [] 1)], 3) \<and>
   Create (fs_with [(1, plain_node ''/'' 4 [2, 3] nullptr), (2, plain_node ''a'' 1 [] 1),
                    (3, plain_node ''b'' 1 [] 1)]) 4 2 ''f''
     = Inr (fs_with [(1, plain_node ''/'' 4 [2, 3] nullptr), (2, plain_node ''a'' 2 [4] 1),
                     (3, plain_node ''b'' 1 [] 1), (4, plain_node ''f'' 1 [] 2)], 4) \<and>
   Release (fs_with [(1, plain_node ''/'' 4 [2, 3] nullptr), (2, plain_node ''a'' 2 [4] 1),
                     (3, plain_node ''b'' 1 [] 1), (4, plain_node ''f'' 1 [] 2)]) 2 1
     = Inr (fs_with [(1, plain_node ''/'' 4 [2, 3] nullptr), (2, plain_node ''a'' 1 [4] 1),
                     (3, plain_node ''b'' 1 [] 1), (4, plain_node ''f'' 1 [] 2)], False) \<and>
   Rename (fs_with [(1, plain_node ''/'' 4 [2, 3] nullptr), (2, plain_node ''a'' 1 [4] 1),
                    (3, plain_node ''b'' 1 [] 1), (4, plain_node ''f'' 1 [] 2)]) 4 ''g'' 3
     = Inr (fs_with [(1, plain_node ''/'' 3 [3] nullptr), (3, plain_node ''b'' 2 [4] 1),
                     (4, plain_node ''g'' 1 [] 3)]) \<and>
   node_at (fs_with [(1, plain_node ''/'' 3 [3] nullptr), (3, plain_node ''b'' 2 [4] 1),
                     (4, plain_node ''g'' 1 [] 3)]) 2 = None"
  by (simp add: eval_simps Rename_def)

section \<open>The tree and tracker invariant\<close>

text \<open>
  As stated for every operation, the invariant does not hold: \<open>Release\<close> destroys a node
  whose count reaches 0 whether or not it still has children. Below, the root is created,
  a child is created under it, and all three references of the root are released: the
  child is left with a parent pointer to a deallocated node.
\<close>

theorem Release_breaks_inv_counterexample:
  "CreateRoot empty_fs 1 ''/'' = Inr (fs_with [(1, plain_node ''/'' 2 [] nullptr)], 1) \<and>
   Create (fs_with [(1, plain_node ''/'' 2 [] nullptr)]) 2 1 ''a''
     = Inr (fs_with [(1, plain_node ''/'' 3 [2] nullptr), (2, plain_node ''a'' 1 [] 1)], 2) \<and>
   tree_tracker_inv (fs_with [(1, plain_node ''/'' 3 [2] nullptr), (2, plain_node ''a'' 1 [] 1)]) \<and>
   Release (fs_with [(1, plain_node ''/'' 3 [2] nullptr), (2, plain_node ''a'' 1 [] 1)]) 1 3
     = Inr (fs_with [(2, plain_node ''a'' 1 [] 1)], True) \<and>
   \<not> tree_tracker_inv (fs_with [(2, plain_node ''a'' 1 [] 1)])"
  by (simp add: eval_simps inv_eval)

text \<open>
  The wrap-around of the 32-bit count has the same effect. In the state below the root
  has one child and \<open>2^32 - 1\<close> references. Two more children wrap its count to 1, and the
  destruction of the first child then destroys the root under the other two.
\<close>

lemma refcount_wrap_breaks_inv:
  "ginv {} (fs_with [(1, plain_node ''/'' 0xFFFFFFFF [2] nullptr), (2, plain_node ''a'' 1 [] 1)]) \<and>
   Create (fs_with [(1, plain_node ''/'' 0xFFFFFFFF [2] nullptr), (2, plain_node ''a'' 1 [] 1)])
       3 1 ''b''
     = Inr (fs_with [(1, plain_node ''/'' 0 [2, 3] nullptr), (2, plain_node ''a'' 1 [] 1),
                     (3, plain_node ''b'' 1 [] 1)], 3) \<and>
   Create (fs_with [(1, plain_node ''/'' 0 [2, 3] nullptr), (2, plain_node ''a'' 1 [] 1),
                    (3, plain_node ''b'' 1 [] 1)]) 4 1 ''c''
     = Inr (fs_with [(1, plain_node ''/'' 1 [2, 3, 4] nullptr), (2, plain_node ''a'' 1 [] 1),
                     (3, plain_node ''b'' 1 [] 1), (4, plain_node ''c'' 1 [] 1)], 4) \<and>
   Release (fs_with [(1, plain_node ''/'' 1 [2, 3, 4] nullptr), (2, plain_node ''a'' 1 [] 1),
                     (3, plain_node ''b'' 1 [] 1), (4, plain_node ''c'' 1 [] 1)]) 2 1
     = Inr (fs_with [(3, plain_node ''b'' 1 [] 1), (4, plain_node ''c'' 1 [] 1)], True) \<and>
   \<not> tree_tracker_inv (fs_with [(3, plain_node ''b'' 1 [] 1), (4, plain_node ''c'' 1 [] 1)])"
  by (simp add: eval_simps inv_eval)

text \<open>
  A third condition concerns \<open>Rename\<close>. In the state below the root and the directory
  \<open>a\<close> are kept alive by their one child each. Moving the file \<open>f\<close> from \<open>a\<close> to the
  root first unlinks \<open>f\<close>, which destroys \<open>a\<close> and then the root, and then links \<open>f\<close>
  under the deallocated root. The model stops there with \<open>BadPointer\<close>; the program
  writes to the freed object and returns. A new parent that holds a reference of its own
  is not destroyed on the way.
\<close>

lemma Rename_into_released_parent:
  "ginv {} (fs_with [(1, plain_node ''/'' 1 [2] nullptr), (2, plain_node ''a'' 1 [3] 1),
                     (3, plain_node ''f'' 1 [] 2)]) \<and>
   \<not> holds_own_ref (fs_with [(1, plain_node ''/'' 1 [2] nullptr), (2, plain_node ''a'' 1 [3] 1),
                     (3, plain_node ''f'' 1 [] 2)]) 1 \<and>
   RemoveFromParent (fs_with [(1, plain_node ''/'' 1 [2] nullptr), (2, plain_node ''a'' 1 [3] 1),
                     (3, plain_node ''f'' 1 [] 2)]) 3
     = Inr (fs_with [(3, plain_node ''f'' 1 [] nullptr)]) \<and>
   Rename (fs_with [(1, plain_node ''/'' 1 [2] nullptr), (2, plain_node ''a'' 1 [3] 1),
                     (3, plain_node ''f'' 1 [] 2)]) 3 ''g'' 1
     = Inl (BadPointer 1)"
  by (simp add: eval_simps inv_eval Rename_def)

text \<open>
  Claim C6, as the code has it. Consider the calls of \<open>Create\<close>, \<open>CreateRoot\<close>,
  \<open>LookupChildByName\<close>, \<open>SetDeleted\<close>, \<open>Rename\<close>, \<open>Release\<close> and the four handle
  operations in which the node the operation is called on is allocated (the parent given
  to \<open>Create\<close> may be null, a new node gets a fresh non-null address), no acquisition
  wraps a reference count, a \<open>Release\<close> which is not an over-release leaves the node at
  least as many references as it has children, and the new parent given to \<open>Rename\<close>,
  unless it is the current parent, has more references than children. Every state that
  such calls build from the empty state satisfies the invariant (the children of an
  allocated node point back to it, a node with a parent is listed exactly once by that
  parent, the tracker holds exactly the allocated nodes), and no such call in such a state
  reads or writes a deallocated node: it returns or stops at a \<open>CHECK\<close>.
\<close>

theorem reachable_tree_tracker_inv:
  "reachable s \<Longrightarrow> tree_tracker_inv s \<and> (\<forall>r. step s r \<longrightarrow> \<not> undefined_behaviour r)"
  using ginv_tree_tracker_inv [OF reachable_ginv] step_defined [OF reachable_ginv] by blast

theorem reachable_tree_tracker_inv_witness:
  "reachable (fs_with [(1, plain_node ''/'' 3 [2] nullptr), (2, plain_node ''a'' 1 [] 1)]) \<and>
   tree_tracker_inv (fs_with [(1, plain_node ''/'' 3 [2] nullptr), (2, plain_node ''a'' 1 [] 1)]) \<and>
   step (fs_with [(1, plain_node ''/'' 3 [2] nullptr), (2, plain_node ''a'' 1 [] 1)])
     (Rename (fs_with [(1, plain_node ''/'' 3 [2] nullptr), (2, plain_node ''a'' 1 [] 1)]) 2 ''b'' 1) \<and>
   \<not> undefined_behaviour
     (Rename (fs_with [(1, plain_node ''/'' 3 [2] nullptr), (2, plain_node ''a'' 1 [] 1)]) 2 ''b'' 1)"
proof -
  let ?s1 = "fs_with [(1, plain_node ''/'' 2 [] nullptr)]"
  let ?s2 = "fs_with [(1, plain_node ''/'' 3 [2] nullptr), (2, plain_node ''a'' 1 [] 1)]"
  have "step empty_fs (outcome (CreateRoot empty_fs 1 ''/''))"
    by (rule step.by_CreateRoot) (simp_all add: eval_simps)
  then have "step empty_fs (Inr ?s1)" by (simp add: eval_simps inv_eval)
  from reachable.next_state [OF reachable.initial this] have 1: "reachable ?s1" .
  have "step ?s1 (outcome (Create ?s1 2 1 ''a''))"
    by (rule step.by_Create) (simp_all add: eval_simps inv_eval)
  then have "step ?s1 (Inr ?s2)" by (simp add: eval_simps inv_eval)
  from reachable.next_state [OF 1 this] have 2: "reachable ?s2" .
  have 3: "step ?s2 (Rename ?s2 2 ''b'' 1)"
    by (rule step.by_Rename [of _ _ "plain_node ''a'' 1 [] 1"]) (simp_all add: eval_simps)
  from reachable_tree_tracker_inv [OF 2] 2 3 show ?thesis by blast
qed

section \<open>The deletion mark\<close>

lemma matches_iff:
  "matches s nm c \<longleftrightarrow>
     (\<exists>cn. node_at s c = Some cn \<and> strcasecmp (c_str nm) (c_str (name cn)) = 0 \<and> \<not> deleted cn)"
  by (auto simp: matches_def split: option.splits)

lemma lookup_loop_cases:
  assumes "\<forall>c \<in> set cs. node_at s c \<noteq> None"
  shows "(\<exists>c cn. c \<in> set cs \<and> node_at s c = Some cn \<and>
             strcasecmp (c_str nm) (c_str (name cn)) = 0 \<and> \<not> deleted cn \<and>
             lookup_loop s cs nm acquire =
               Inr (if acquire then store s c (cn\<lparr>refcount := refcount cn + 1\<rparr>) else s, c)) \<or>
         ((\<forall>c \<in> set cs. \<not> matches s nm c) \<and> lookup_loop s cs nm acquire = Inr (s, nullptr))"
  using assms
proof (induction cs)
  case Nil
  then show ?case by simp
next
  case (Cons c cs)
  then obtain cn where cn: "node_at s c = Some cn" by auto
  show ?case
  proof (cases "strcasecmp (c_str nm) (c_str (name cn)) = 0 \<and> \<not> deleted cn")
    case True
    with cn have "lookup_loop s (c # cs) nm acquire =
               Inr (if acquire then store s c (cn\<lparr>refcount := refcount cn + 1\<rparr>) else s, c)"
      by (simp add: Acquire_def)
    with True cn show ?thesis by auto
  next
    case False
    with cn have nm: "\<not> matches s nm c" and eq: "lookup_loop s (c # cs) nm acquire = lookup_loop s cs nm acquire"
      by (auto simp: matches_iff)
    from Cons have "(\<exists>c cn. c \<in> set cs \<and> node_at s c = Some cn \<and>
             strcasecmp (c_str nm) (c_str (name cn)) = 0 \<and> \<not> deleted cn \<and>
             lookup_loop s cs nm acquire =
               Inr (if acquire then store s c (cn\<lparr>refcount := refcount cn + 1\<rparr>) else s, c)) \<or>
         ((\<forall>c \<in> set cs. \<not> matches s nm c) \<and> lookup_loop s cs nm acquire = Inr (s, nullptr))"
      by simp
    then show ?thesis
    proof
      assume "\<exists>c cn. c \<in> set cs \<and> node_at s c = Some cn \<and>
             strcasecmp (c_str nm) (c_str (name cn)) = 0 \<and> \<not> deleted cn \<and>
             lookup_loop s cs nm acquire =
               Inr (if acquire then store s c (cn\<lparr>refcount := refcount cn + 1\<rparr>) else s, c)"
      then obtain c' cn' where "c' \<in> set cs" "node_at s c' = Some cn'"
        "strcasecmp (c_str nm) (c_str (name cn')) = 0" "\<not> deleted cn'"
        "lookup_loop s cs nm acquire =
               Inr (if acquire then store s c' (cn'\<lparr>refcount := refcount cn' + 1\<rparr>) else s, c')"
        by blast
      with eq show ?thesis by (intro disjI1 exI [of _ c'] exI [of _ cn']) simp
    next
      assume "(\<forall>c \<in> set cs. \<not> matches s nm c) \<and> lookup_loop s cs nm acquire = Inr (s, nullptr)"
      with nm eq show ?thesis by simp
    qed
  qed
qed

lemma lookup_loop_not_deleted:
  "lookup_loop s cs nm acquire = Inr (s', r) \<Longrightarrow>
   r = nullptr \<or> (\<exists>cn. node_at s r = Some cn \<and> \<not> deleted cn)"
  by (induction cs) (auto split: option.splits if_splits sum.splits)

lemma lookup_loop_total:
  "\<forall>c \<in> set cs. node_at s c \<noteq> None \<Longrightarrow> \<exists>s' r. lookup_loop s cs nm acquire = Inr (s', r)"
  using lookup_loop_cases [of cs s nm acquire] by blast

text \<open>
  Claim C7. \<open>SetDeleted\<close> on a node \<open>n\<close> stores the deleted flag of \<open>n\<close> and nothing else:
  the result is the old state with that one field set, so reference count, name, parent
  pointer, handles, the children lists of all nodes and the tracker are unchanged, and
  \<open>GetParent\<close> returns what it returned before. Afterwards no \<open>LookupChildByName\<close>
  returns \<open>n\<close>; the lookup of the name of \<open>n\<close> in its parent returns another node or
  null.
\<close>

theorem SetDeleted_frame:
  assumes n: "node_at s n = Some nd" and nz: "n \<noteq> nullptr"
  shows "SetDeleted s n = Inr (store s n (nd\<lparr>deleted := True\<rparr>)) \<and>
         GetParent (store s n (nd\<lparr>deleted := True\<rparr>)) n = GetParent s n \<and>
         (\<forall>p x acquire s' r.
            LookupChildByName (store s n (nd\<lparr>deleted := True\<rparr>)) p x acquire = Inr (s', r)
            \<longrightarrow> r \<noteq> n) \<and>
         (ginv {} s \<and> parent nd \<noteq> nullptr \<longrightarrow>
            (\<exists>s' r. LookupChildByName (store s n (nd\<lparr>deleted := True\<rparr>)) (parent nd) (name nd)
                      acquire = Inr (s', r) \<and> r \<noteq> n))"
proof (intro conjI allI impI)
  let ?s1 = "store s n (nd\<lparr>deleted := True\<rparr>)"
  show "SetDeleted s n = Inr ?s1" using n by (simp add: SetDeleted_def)
  show "GetParent ?s1 n = GetParent s n" using n by (simp add: GetParent_def)
  have no: "r \<noteq> n" if "LookupChildByName ?s1 p x acq = Inr (s', r)" for p x acq s' r
  proof -
    from that obtain pn :: node where "lookup_loop ?s1 (children pn) x acq = Inr (s', r)"
      by (auto simp: LookupChildByName_def split: option.splits)
    from lookup_loop_not_deleted [OF this] nz show ?thesis by auto
  qed
  then show "r \<noteq> n" if "LookupChildByName ?s1 p x acq = Inr (s', r)" for p x acq s' r
    using that by blast
  assume "ginv {} s \<and> parent nd \<noteq> nullptr"
  then have inv: "ginv {} s" and pz: "parent nd \<noteq> nullptr" by simp_all
  from ginv_linked [OF inv n _ pz] obtain pn where pn: "node_at s (parent nd) = Some pn" by auto
  then obtain pn1 where pn1: "node_at ?s1 (parent nd) = Some pn1" and ch: "children pn1 = children pn"
    by (cases "parent nd = n") (use n in auto)
  have "\<forall>c \<in> set (children pn1). node_at ?s1 c \<noteq> None"
    using ginv_child [OF inv pn] ch by auto
  from lookup_loop_total [OF this, of "name nd" acquire] pn1
  obtain s' r where l: "LookupChildByName ?s1 (parent nd) (name nd) acquire = Inr (s', r)"
    by (auto simp: LookupChildByName_def)
  with no [OF l] show "\<exists>s' r. LookupChildByName ?s1 (parent nd) (name nd) acquire = Inr (s', r) \<and> r \<noteq> n"
    by blast
qed

theorem SetDeleted_frame_witness:
  "SetDeleted (fs_with [(1, plain_node ''/'' 3 [2] nullptr), (2, plain_node ''a'' 1 [] 1)]) 2
     = Inr (fs_with [(1, plain_node ''/'' 3 [2] nullptr), (2, plain_node ''a'' 1 [] 1\<lparr>deleted := True\<rparr>)]) \<and>
   ginv {} (fs_with [(1, plain_node ''/'' 3 [2] nullptr), (2, plain_node ''a'' 1 [] 1)]) \<and>
   LookupChildByName (fs_with [(1, plain_node ''/'' 3 [2] nullptr), (2, plain_node ''a'' 1 [] 1)])
      1 ''a'' False
     = Inr (fs_with [(1, plain_node ''/'' 3 [2] nullptr), (2, plain_node ''a'' 1 [] 1)], 2) \<and>
   LookupChildByName
      (fs_with [(1, plain_node ''/'' 3 [2] nullptr), (2, plain_node ''a'' 1 [] 1\<lparr>deleted := True\<rparr>)])
      1 ''a'' False
     = Inr (fs_with [(1, plain_node ''/'' 3 [2] nullptr), (2, plain_node ''a'' 1 [] 1\<lparr>deleted := True\<rparr>)],
            nullptr)"
proof -
  let ?s = "fs_with [(1, plain_node ''/'' 3 [2] nullptr), (2, plain_node ''a'' 1 [] 1)]"
  have h1: "node_at ?s 2 = Some (plain_node ''a'' 1 [] 1)" by (simp add: eval_simps)
  have h2: "(2 :: addr) \<noteq> nullptr" by simp
  have h3: "ginv {} ?s" by (simp add: eval_simps inv_eval)
  have e: "store ?s 2 (plain_node ''a'' 1 [] 1\<lparr>deleted := True\<rparr>)
      = fs_with [(1, plain_node ''/'' 3 [2] nullptr), (2, plain_node ''a'' 1 [] 1\<lparr>deleted := True\<rparr>)]"
    by (simp add: eval_simps)
  from SetDeleted_frame [OF h1 h2, of False] h3 e
  have "SetDeleted ?s 2
     = Inr (fs_with [(1, plain_node ''/'' 3 [2] nullptr), (2, plain_node ''a'' 1 [] 1\<lparr>deleted := True\<rparr>)])"
    by simp
  moreover have "LookupChildByName ?s 1 ''a'' False = Inr (?s, 2)"
    by (simp add: eval_simps LookupChildByName_def tolower_def c_str_def char_of_def bit_Suc_0_iff)
  moreover have "LookupChildByName
      (fs_with [(1, plain_node ''/'' 3 [2] nullptr), (2, plain_node ''a'' 1 [] 1\<lparr>deleted := True\<rparr>)])
      1 ''a'' False
     = Inr (fs_with [(1, plain_node ''/'' 3 [2] nullptr), (2, plain_node ''a'' 1 [] 1\<lparr>deleted := True\<rparr>)],
            nullptr)"
    by (simp add: eval_simps LookupChildByName_def tolower_def c_str_def char_of_def bit_Suc_0_iff)
  ultimately show ?thesis using h3 by simp
qed

section \<open>Lookup by name\<close>

text \<open>The result 0 of \<open>strcasecmp\<close> is equality of the C strings up to ASCII case.\<close>

lemma of_char_tolower_pos: "c \<noteq> CHR 0x00 \<Longrightarrow> 0 < (of_char (tolower c) :: nat)"
proof -
  assume c: "c \<noteq> CHR 0x00"
  have z: "(of_char c :: nat) = 0 \<longleftrightarrow> c = CHR 0x00"
    using of_char_eq_iff [of c "CHR 0x00", where ?'a = nat] by simp
  show ?thesis
  proof (cases "(65::nat) \<le> of_char c \<and> of_char c \<le> (90::nat)")
    case True
    then have "(of_char (tolower c) :: nat) = of_char c + 32"
      by (simp add: tolower_def)
    then show ?thesis by simp
  next
    case False
    with c z show ?thesis by (auto simp: tolower_def)
  qed
qed

lemma strcasecmp_0_iff_aux:
  "CHR 0x00 \<notin> set x \<Longrightarrow> CHR 0x00 \<notin> set y \<Longrightarrow>
   strcasecmp x y = 0 \<longleftrightarrow> map tolower x = map tolower y"
proof (induction x y rule: strcasecmp.induct)
  case 1
  show ?case by simp
next
  case (2 y ys)
  then have "y \<noteq> CHR 0x00" by auto
  from of_char_tolower_pos [OF this] show ?case by simp
next
  case (3 x xs)
  then have "x \<noteq> CHR 0x00" by auto
  from of_char_tolower_pos [OF this] show ?case by simp
next
  case (4 x xs y ys)
  show ?case
  proof (cases "tolower x = tolower y")
    case True
    with 4 show ?thesis by simp
  next
    case False
    then have "(of_char (tolower x) :: nat) \<noteq> of_char (tolower y)" by simp
    with False show ?thesis by simp
  qed
qed

lemma strcasecmp_0_iff:
  "strcasecmp (c_str x) (c_str y) = 0 \<longleftrightarrow> map tolower (c_str x) = map tolower (c_str y)"
proof -
  have "CHR 0x00 \<notin> set (c_str z)" for z
    unfolding c_str_def by (induction z) auto
  then show ?thesis by (intro strcasecmp_0_iff_aux) auto
qed

text \<open>
  Claim C8. In a state in which the children of \<open>p\<close> are allocated, \<open>LookupChildByName\<close>
  either returns a child of \<open>p\<close> that is not marked deleted and whose name compares equal
  to the given one under \<open>strcasecmp\<close>, with the reference count of that child
  incremented by one (the \<^verbatim>\<open>uint32_t\<close> increment) if \<open>acquire\<close> is true and with the
  state unchanged if it is false; or no child of \<open>p\<close> passes the test, and it returns null
  and the unchanged state.
\<close>

theorem LookupChildByName_result:
  assumes "node_at s p = Some pn" and "\<forall>c \<in> set (children pn). node_at s c \<noteq> None"
  shows "(\<exists>c cn. c \<in> set (children pn) \<and> node_at s c = Some cn \<and>
             strcasecmp (c_str nm) (c_str (name cn)) = 0 \<and> \<not> deleted cn \<and>
             LookupChildByName s p nm acquire =
               Inr (if acquire then store s c (cn\<lparr>refcount := refcount cn + 1\<rparr>) else s, c)) \<or>
         ((\<forall>c \<in> set (children pn). \<not> matches s nm c) \<and>
          LookupChildByName s p nm acquire = Inr (s, nullptr))"
  using lookup_loop_cases [OF assms(2), of nm acquire] assms(1)
  by (simp add: LookupChildByName_def)

theorem LookupChildByName_result_witness:
  "node_at (fs_with [(1, plain_node ''/'' 4 [2, 3] nullptr), (2, plain_node ''Music'' 1 [] 1),
                     (3, plain_node ''Pictures'' 1 [] 1)]) 1
     = Some (plain_node ''/'' 4 [2, 3] nullptr) \<and>
   LookupChildByName (fs_with [(1, plain_node ''/'' 4 [2, 3] nullptr), (2, plain_node ''Music'' 1 [] 1),
                     (3, plain_node ''Pictures'' 1 [] 1)]) 1 ''pICTURES'' True
     = Inr (fs_with [(1, plain_node ''/'' 4 [2, 3] nullptr), (2, plain_node ''Music'' 1 [] 1),
                     (3, plain_node ''Pictures'' 2 [] 1)], 3) \<and>
   LookupChildByName (fs_with [(1, plain_node ''/'' 4 [2, 3] nullptr), (2, plain_node ''Music'' 1 [] 1),
                     (3, plain_node ''Pictures'' 1 [] 1)]) 1 ''Videos'' True
     = Inr (fs_with [(1, plain_node ''/'' 4 [2, 3] nullptr), (2, plain_node ''Music'' 1 [] 1),
                     (3, plain_node ''Pictures'' 1 [] 1)], nullptr)"
proof -
  let ?s = "fs_with [(1, plain_node ''/'' 4 [2, 3] nullptr), (2, plain_node ''Music'' 1 [] 1),
                     (3, plain_node ''Pictures'' 1 [] 1)]"
  have h1: "node_at ?s 1 = Some (plain_node ''/'' 4 [2, 3] nullptr)" by (simp add: eval_simps)
  have h2: "\<forall>c \<in> set (children (plain_node ''/'' 4 [2, 3] nullptr)). node_at ?s c \<noteq> None"
    by (simp add: eval_simps)
  have a: "LookupChildByName ?s 1 ''pICTURES'' True
     = Inr (fs_with [(1, plain_node ''/'' 4 [2, 3] nullptr), (2, plain_node ''Music'' 1 [] 1),
                     (3, plain_node ''Pictures'' 2 [] 1)], 3)"
    by (simp add: eval_simps LookupChildByName_def tolower_def c_str_def char_of_def bit_Suc_0_iff)
  have b: "LookupChildByName ?s 1 ''Videos'' True = Inr (?s, nullptr)"
    by (simp add: eval_simps LookupChildByName_def tolower_def c_str_def char_of_def bit_Suc_0_iff)
  from LookupChildByName_result [OF h1 h2, of "''pICTURES''" True]
    LookupChildByName_result [OF h1 h2, of "''Videos''" True] h1 a b
  show ?thesis by simp
qed

section \<open>Destruction cascades to the parent\<close>

lemma delete_this_parent_last:
  assumes d: "delete_this s n = Inr s'" and n: "node_at s n = Some nd"
    and pz: "parent nd \<noteq> nullptr" and p: "node_at s (parent nd) = Some pn"
    and ne: "parent nd \<noteq> n" and one: "refcount pn = 1"
  shows "node_at s' (parent nd) = None \<and> parent nd \<notin> active_nodes (tracker s')"
proof -
  from d obtain s1 n1 where r: "RemoveFromParent s n = Inr s1"
    and s': "s' = free (store s1 n (n1\<lparr>handles := [], dirhandles := []\<rparr>)) n
               \<lparr>tracker := tracker s1\<lparr>active_nodes := active_nodes (tracker s1) - {n}\<rparr>\<rparr>"
    by (auto simp: delete_this.simps [of s n] NodeDeleted_def kEnableInodeTracking_def
        split: sum.splits option.splits if_splits)
  let ?s1 = "store s (parent nd) (pn\<lparr>children := remove1 n (children pn)\<rparr>)"
  from r n pz p obtain s2 b n2 where rel: "Release ?s1 (parent nd) 1 = Inr (s2, b)"
    and s1: "s1 = store s2 n (n2\<lparr>parent := nullptr\<rparr>)"
    by (auto simp: RemoveFromParent.simps [of s n] split: sum.splits option.splits if_splits)
  from rel one have "b = True"
    by (auto simp: Release.simps [of ?s1] split: sum.splits)
  with rel Release_True_freed [of ?s1 "parent nd" 1 s2] Release_True_untracked [of ?s1 "parent nd" 1 s2]
  have "node_at s2 (parent nd) = None" "parent nd \<notin> active_nodes (tracker s2)" by auto
  with s1 s' ne show ?thesis by simp
qed

lemma delete_this_parent_kept:
  assumes d: "delete_this s n = Inr s'" and n: "node_at s n = Some nd"
    and pz: "parent nd \<noteq> nullptr" and p: "node_at s (parent nd) = Some pn"
    and ne: "parent nd \<noteq> n" and many: "1 < refcount pn"
  shows "node_at s' (parent nd) =
           Some (pn\<lparr>children := remove1 n (children pn), refcount := refcount pn - 1\<rparr>)"
proof -
  from d obtain s1 n1 where r: "RemoveFromParent s n = Inr s1"
    and s': "s' = free (store s1 n (n1\<lparr>handles := [], dirhandles := []\<rparr>)) n
               \<lparr>tracker := tracker s1\<lparr>active_nodes := active_nodes (tracker s1) - {n}\<rparr>\<rparr>"
    by (auto simp: delete_this.simps [of s n] NodeDeleted_def kEnableInodeTracking_def
        split: sum.splits option.splits if_splits)
  let ?s1 = "store s (parent nd) (pn\<lparr>children := remove1 n (children pn)\<rparr>)"
  from r n pz p obtain s2 b n2 where rel: "Release ?s1 (parent nd) 1 = Inr (s2, b)"
    and s1: "s1 = store s2 n (n2\<lparr>parent := nullptr\<rparr>)"
    by (auto simp: RemoveFromParent.simps [of s n] split: sum.splits option.splits if_splits)
  from many have "1 \<le> refcount pn" "refcount pn - 1 \<noteq> 0" by auto
  with rel have "s2 = store ?s1 (parent nd)
      (pn\<lparr>children := remove1 n (children pn), refcount := refcount pn - 1\<rparr>)"
    by (simp add: Release.simps [of ?s1])
  with s1 s' ne show ?thesis by simp
qed

text \<open>
  Claim C9. When \<open>Release\<close> takes the last reference of a node with a parent, the
  destructor releases one reference of the parent. A parent whose count was exactly 1 is
  destroyed within the same call (and so on up the chain, as the example after the theorem
  shows for three levels); a parent with more references stays, without the child in its
  list and with one reference less.
\<close>

theorem Release_cascade:
  assumes inv: "sinv {} s" and n: "node_at s n = Some nd" and c: "refcount nd = c"
    and pz: "parent nd \<noteq> nullptr" and p: "node_at s (parent nd) = Some pn"
    and ne: "parent nd \<noteq> n"
  shows "\<exists>s'. Release s n c = Inr (s', True) \<and> node_at s' n = None \<and>
           (refcount pn = 1 \<longrightarrow>
              node_at s' (parent nd) = None \<and> parent nd \<notin> active_nodes (tracker s')) \<and>
           (1 < refcount pn \<longrightarrow>
              node_at s' (parent nd) =
                Some (pn\<lparr>children := remove1 n (children pn), refcount := refcount pn - 1\<rparr>))"
proof -
  from Release_last [OF n c inv] obtain s' where r: "Release s n c = Inr (s', True)" by blast
  let ?s0 = "store s n (nd\<lparr>refcount := refcount nd - c\<rparr>)"
  from r n c have d: "delete_this ?s0 n = Inr s'"
    by (simp add: Release.simps [of s n c] split: sum.splits)
  have n0: "node_at ?s0 n = Some (nd\<lparr>refcount := refcount nd - c\<rparr>)" by simp
  from p ne have p0: "node_at ?s0 (parent (nd\<lparr>refcount := refcount nd - c\<rparr>)) = Some pn" by simp
  from delete_this_parent_last [OF d n0 _ p0] delete_this_parent_kept [OF d n0 _ p0] pz ne
  have "refcount pn = 1 \<longrightarrow>
              node_at s' (parent nd) = None \<and> parent nd \<notin> active_nodes (tracker s')"
    and "1 < refcount pn \<longrightarrow>
              node_at s' (parent nd) =
                Some (pn\<lparr>children := remove1 n (children pn), refcount := refcount pn - 1\<rparr>)"
    by simp_all
  with r Release_True_freed [OF r] show ?thesis by blast
qed

theorem Release_cascade_witness:
  "sinv {} (fs_with [(1, plain_node ''/'' 3 [2] nullptr), (2, plain_node ''a'' 1 [3] 1),
                     (3, plain_node ''b'' 1 [4] 2), (4, plain_node ''c'' 1 [] 3)]) \<and>
   node_at (fs_with [(1, plain_node ''/'' 3 [2] nullptr), (2, plain_node ''a'' 1 [3] 1),
                     (3, plain_node ''b'' 1 [4] 2), (4, plain_node ''c'' 1 [] 3)]) 4
     = Some (plain_node ''c'' 1 [] 3) \<and>
   node_at (fs_with [(1, plain_node ''/'' 3 [2] nullptr), (2, plain_node ''a'' 1 [3] 1),
                     (3, plain_node ''b'' 1 [4] 2), (4, plain_node ''c'' 1 [] 3)]) 3
     = Some (plain_node ''b'' 1 [4] 2) \<and>
   Release (fs_with [(1, plain_node ''/'' 3 [2] nullptr), (2, plain_node ''a'' 1 [3] 1),
                     (3, plain_node ''b'' 1 [4] 2), (4, plain_node ''c'' 1 [] 3)]) 4 1
     = Inr (fs_with [(1, plain_node ''/'' 2 [] nullptr)], True) \<and>
   node_at (fs_with [(1, plain_node ''/'' 2 [] nullptr)]) 3 = None"
proof -
  let ?s = "fs_with [(1, plain_node ''/'' 3 [2] nullptr), (2, plain_node ''a'' 1 [3] 1),
                     (3, plain_node ''b'' 1 [4] 2), (4, plain_node ''c'' 1 [] 3)]"
  have h1: "sinv {} ?s" by (simp add: inv_eval eval_simps)
  have h2: "node_at ?s 4 = Some (plain_node ''c'' 1 [] 3)" by (simp add: eval_simps)
  have h3: "refcount (plain_node ''c'' 1 [] 3) = 1" by (simp add: plain_node_def)
  have h4: "parent (plain_node ''c'' 1 [] 3) \<noteq> nullptr" by (simp add: plain_node_def)
  have h5: "node_at ?s (parent (plain_node ''c'' 1 [] 3)) = Some (plain_node ''b'' 1 [4] 2)"
    by (simp add: eval_simps)
  have h6: "parent (plain_node ''c'' 1 [] 3) \<noteq> 4" by (simp add: plain_node_def)
  from Release_cascade [OF h1 h2 h3 h4 h5 h6] obtain s' where
    r: "Release ?s 4 1 = Inr (s', True)" and "node_at s' 3 = None"
    by (auto simp: plain_node_def)
  moreover have "Release ?s 4 1 = Inr (fs_with [(1, plain_node ''/'' 2 [] nullptr)], True)"
    by (simp add: eval_simps)
  ultimately show ?thesis using h1 h2 h5 by (simp add: plain_node_def)
qed

section \<open>Rename within the same directory\<close>

text \<open>
  Claim C10. \<open>Rename\<close> of a node to a new name under the parent it already has (the null
  parent of a root included) changes the name of that node and nothing else: the result is
  the old state with the one field updated, so no reference count, children list or parent
  pointer changes and no node is released or acquired.
\<close>

theorem Rename_same_parent:
  "node_at s n = Some nd \<Longrightarrow> Rename s n nm (parent nd) = Inr (store s n (nd\<lparr>name := nm\<rparr>))"
  by (simp add: Rename_def)

theorem Rename_same_parent_witness:
  "node_at (fs_with [(1, plain_node ''/'' 3 [2] nullptr), (2, plain_node ''a'' 1 [] 1)]) 2
     = Some (plain_node ''a'' 1 [] 1) \<and>
   Rename (fs_with [(1, plain_node ''/'' 3 [2] nullptr), (2, plain_node ''a'' 1 [] 1)]) 2 ''b'' 1
     = Inr (fs_with [(1, plain_node ''/'' 3 [2] nullptr), (2, plain_node ''b'' 1 [] 1)])"
proof -
  have h: "node_at (fs_with [(1, plain_node ''/'' 3 [2] nullptr), (2, plain_node ''a'' 1 [] 1)]) 2
     = Some (plain_node ''a'' 1 [] 1)" by (simp add: eval_simps)
  from Rename_same_parent [OF h, of "''b''"] h show ?thesis
    by (simp add: eval_simps)
qed

end
